theory Spec2Isabelle
  imports Main "HOL-Library.Multiset"
begin

section \<open>Data model (types.ts)\<close>

text \<open>
  The session engine of the Hidden Motif party game: the class \<open>Game\<close> of
  \<^verbatim>\<open>src/server/game.ts\<close>, the dispatcher of \<^verbatim>\<open>src/server/server.ts\<close> and the
  error handling of \<^verbatim>\<open>services/geminiService.ts\<close>.  Interfaces are records, the enum is
  a datatype, \<open>T | null\<close> is \<open>T option\<close>, a thrown exception is \<open>Inl\<close> of a sum.
  The fields called \<open>id\<close> in the source are \<open>id_player\<close> and \<open>id_artwork\<close> here.
\<close>

datatype GameState =
  JOIN | LOBBY | ROUND_STARTING | BRIEFING | PROMPTING | GENERATING | SCORING | GALLERY
  | REVEAL | GAME_OVER

datatype PlayerRole = Artist | Dodger

record Player =
  id_player :: string
  name :: string
  role :: PlayerRole
  score :: int
  promptSubmitted :: bool

record Artwork =
  id_artwork :: int
  playerId :: string
  prompt :: string
  imageUrl :: "string option"
  isDodger :: bool
  qualityScore :: "int option"
  originalityScore :: "int option"

record Vote =
  voterId :: string
  artworkId :: int
  isYes :: bool

record RoundData =
  theme :: string
  motif1 :: string
  motif2 :: string

record Rankings =
  qualityRanking :: "int list"
  originalityRanking :: "int list"

text \<open>
  \<^verbatim>\<open>constants.cjs\<close> is not among the sources, so the three constants imported from it
  are parameters of the model.
\<close>

record Constants =
  TOTAL_ROUNDS :: int
  TOTAL_PLAYERS :: nat
  GALLERY_TIMER_SECONDS :: int

text \<open>
  The fields of class \<open>Game\<close>.  \<open>galleryTimer\<close> records whether an interval is live
  (\<open>setInterval\<close> makes it live, \<open>clearInterval\<close> ends it).  The last three fields are
  not fields of the class: they count the suspended \<open>async\<close> calls of the session, one
  counter for each \<open>await\<close> in the class (\<open>startNewRound\<close>, \<open>generateAllArtworks\<close>,
  \<open>runArtEvaluation\<close>), so that a continuation runs only after the call that suspended.
\<close>

record Game =
  roomId :: string
  players :: "Player list"
  state :: GameState
  currentRound :: int
  roundData :: "RoundData option"
  artworks :: "Artwork list"
  votes :: "Vote list"
  galleryIndex :: nat
  galleryTimer :: bool
  galleryTime :: int
  dodgerId :: "string option"
  readyPlayers :: "string set"
  awaitingRoundData :: nat
  awaitingImages :: nat
  awaitingRankings :: nat

datatype error = TypeError

section \<open>The class Game (game.ts)\<close>

text \<open>
  Every method is a function from the session to the session it leaves, or to the thrown
  error.  \<open>broadcastUpdate\<close>, the callback that sends the snapshot of
  \<open>getSerializableState\<close> to the room, changes nothing in the session and is left out.
  An \<open>async\<close> method is two functions: \<open>_call\<close> runs up to its \<open>await\<close>, \<open>_resume\<close> is the
  continuation, applied to what the awaited call produced.
\<close>

definition newGame :: "Constants \<Rightarrow> string \<Rightarrow> Game" where
  "newGame c rid =
     \<lparr>roomId = rid, players = [], state = LOBBY, currentRound = 0, roundData = None,
      artworks = [], votes = [], galleryIndex = 0, galleryTimer = False,
      galleryTime = GALLERY_TIMER_SECONDS c, dodgerId = None, readyPlayers = {},
      awaitingRoundData = 0, awaitingImages = 0, awaitingRankings = 0\<rparr>"

definition addPlayer :: "Constants \<Rightarrow> string \<Rightarrow> string \<Rightarrow> Game \<Rightarrow> Game" where
  "addPlayer c i n g =
     (if length (players g) \<ge> TOTAL_PLAYERS c then g
      else g\<lparr>players := players g @
             [\<lparr>id_player = i, name = n, role = Artist, score = 0, promptSubmitted = False\<rparr>]\<rparr>)"

definition removePlayer :: "string \<Rightarrow> Game \<Rightarrow> Game" where
  "removePlayer i g =
     (let g1 = g\<lparr>players := filter (\<lambda>p. id_player p \<noteq> i) (players g)\<rparr>
      in if length (players g1) = 0 then g1\<lparr>galleryTimer := False\<rparr> else g1)"

definition isFull :: "Constants \<Rightarrow> Game \<Rightarrow> bool" where
  "isFull c g = (length (players g) \<ge> TOTAL_PLAYERS c)"

text \<open>
  \<open>startNewRound\<close> is \<open>async\<close>: the call runs up to \<open>await gemini.generateRoundData()\<close>
  and the rest runs when the round data has arrived.  \<open>dodgerIndex\<close> is the value of
  \<open>Math.floor(Math.random() * this.players.length)\<close>; on an empty roster
  \<open>this.players[dodgerIndex]\<close> is undefined and the assignment to its \<open>role\<close> throws.
\<close>

definition startNewRound_call :: "Game \<Rightarrow> Game" where
  "startNewRound_call g =
     g\<lparr>state := ROUND_STARTING, awaitingRoundData := awaitingRoundData g + 1\<rparr>"

definition startNewRound_resume :: "RoundData \<Rightarrow> nat \<Rightarrow> Game \<Rightarrow> error + Game" where
  "startNewRound_resume rd dodgerIndex g =
     (let g1 = g\<lparr>awaitingRoundData := awaitingRoundData g - 1,
                 roundData := Some rd, artworks := [], votes := [], galleryIndex := 0,
                 readyPlayers := {},
                 players := map (\<lambda>p. p\<lparr>role := Artist, promptSubmitted := False\<rparr>) (players g)\<rparr>
      in if dodgerIndex < length (players g1)
         then Inr (g1\<lparr>players := (players g1)[dodgerIndex := (players g1 ! dodgerIndex)\<lparr>role := Dodger\<rparr>],
                     dodgerId := Some (id_player (players g1 ! dodgerIndex)),
                     state := BRIEFING\<rparr>)
         else Inl TypeError)"

definition startGame :: "Game \<Rightarrow> Game" where
  "startGame g =
     (if state g \<noteq> LOBBY then g
      else startNewRound_call
             (g\<lparr>currentRound := 1, players := map (\<lambda>p. p\<lparr>score := 0\<rparr>) (players g)\<rparr>))"

definition resetGame :: "Game \<Rightarrow> Game" where
  "resetGame g =
     g\<lparr>state := LOBBY, currentRound := 0, players := map (\<lambda>p. p\<lparr>score := 0\<rparr>) (players g)\<rparr>"

definition handlePlayerReady :: "string \<Rightarrow> Game \<Rightarrow> Game" where
  "handlePlayerReady pid g =
     (let g1 = g\<lparr>readyPlayers := insert pid (readyPlayers g)\<rparr>
      in if card (readyPlayers g1) = length (players g1) then g1\<lparr>state := PROMPTING\<rparr> else g1)"

text \<open>
  \<open>players.find\<close> returns a reference to the first matching element, and the assignment
  to its field changes that element of the list: \<open>update_first\<close>.
\<close>

fun update_first :: "('a \<Rightarrow> bool) \<Rightarrow> ('a \<Rightarrow> 'a) \<Rightarrow> 'a list \<Rightarrow> 'a list" where
  "update_first P f [] = []"
| "update_first P f (x # xs) = (if P x then f x # xs else x # update_first P f xs)"

definition generateAllArtworks_call :: "Game \<Rightarrow> Game" where
  "generateAllArtworks_call g = g\<lparr>state := GENERATING, awaitingImages := awaitingImages g + 1\<rparr>"

definition handlePromptSubmission :: "string \<Rightarrow> string \<Rightarrow> Game \<Rightarrow> Game" where
  "handlePromptSubmission pid pr g =
     (case find (\<lambda>p. id_player p = pid) (players g) of
        None \<Rightarrow> g
      | Some player \<Rightarrow>
          if promptSubmitted player then g
          else
            let g1 = g\<lparr>players := update_first (\<lambda>p. id_player p = pid)
                                     (\<lambda>p. p\<lparr>promptSubmitted := True\<rparr>) (players g)\<rparr>;
                isDodger' = (role player = Dodger);
                artworkId' = int (length (artworks g1)) + 1;
                g2 = g1\<lparr>artworks := artworks g1 @
                          [\<lparr>id_artwork = artworkId', playerId = pid, prompt = pr, imageUrl = None,
                            isDodger = isDodger', qualityScore = None, originalityScore = None\<rparr>]\<rparr>
            in if list_all promptSubmitted (players g2) then generateAllArtworks_call g2 else g2)"

definition startGalleryTimer :: "Constants \<Rightarrow> Game \<Rightarrow> Game" where
  "startGalleryTimer c g = g\<lparr>galleryTimer := True, galleryTime := GALLERY_TIMER_SECONDS c\<rparr>"

text \<open>
  \<open>shuffleArray\<close> sorts a copy with a random comparator: the result is the elements in some
  order, given here by the list \<open>perm\<close> of source positions.  \<open>is_shuffle\<close> says that
  \<open>perm\<close> lists every position once.
\<close>

definition is_shuffle :: "nat list \<Rightarrow> nat \<Rightarrow> bool" where
  "is_shuffle perm n = (length perm = n \<and> distinct perm \<and> list_all (\<lambda>i. i < n) perm)"

definition shuffleArray :: "nat list \<Rightarrow> 'a list \<Rightarrow> 'a list" where
  "shuffleArray perm xs = map (\<lambda>i. xs ! i) perm"

text \<open>
  The continuation of \<open>generateAllArtworks\<close> after \<open>Promise.all\<close>: \<open>urls\<close> are the results
  of \<open>gemini.generateImage\<close>, one for each artwork, stored in \<open>imageUrl\<close>.  The source
  stores each result as it arrives; no method reads \<open>imageUrl\<close>, and here all are stored at
  the join.
\<close>

definition generateAllArtworks_resume :: "Constants \<Rightarrow> string option list \<Rightarrow> nat list \<Rightarrow> Game \<Rightarrow> Game" where
  "generateAllArtworks_resume c urls perm g =
     startGalleryTimer c
       (g\<lparr>awaitingImages := awaitingImages g - 1,
          artworks := shuffleArray perm (map (\<lambda>(art, u). art\<lparr>imageUrl := u\<rparr>) (zip (artworks g) urls)),
          state := GALLERY\<rparr>)"

definition runArtEvaluation_call :: "Game \<Rightarrow> Game" where
  "runArtEvaluation_call g =
     (let g1 = g\<lparr>state := SCORING\<rparr>
      in if roundData g1 = None then g1 else g1\<lparr>awaitingRankings := awaitingRankings g1 + 1\<rparr>)"

definition hasVoted :: "Vote list \<Rightarrow> string \<Rightarrow> int \<Rightarrow> bool" where
  "hasVoted vs pid aid = list_ex (\<lambda>v. voterId v = pid \<and> artworkId v = aid) vs"

text \<open>
  The loop of \<open>nextGalleryItem\<close> over the players: each one without a vote on the current
  artwork gets a \<open>no\<close> vote.  The test reads the ledger as the loop has left it so far.
\<close>

definition fillNoVotes :: "int \<Rightarrow> Player list \<Rightarrow> Vote list \<Rightarrow> Vote list" where
  "fillNoVotes currentArtworkId ps vs0 =
     foldl (\<lambda>vs p. if \<not> hasVoted vs (id_player p) currentArtworkId
                    then vs @ [\<lparr>voterId = id_player p, artworkId = currentArtworkId, isYes = False\<rparr>]
                    else vs)
           vs0 ps"

definition nextGalleryItem :: "Constants \<Rightarrow> Game \<Rightarrow> error + Game" where
  "nextGalleryItem c g =
     (let g1 = g\<lparr>galleryTimer := False\<rparr>
      in if galleryIndex g1 < length (artworks g1) then
           let currentArtworkId = id_artwork (artworks g1 ! galleryIndex g1);
               g2 = g1\<lparr>votes := fillNoVotes currentArtworkId (players g1) (votes g1)\<rparr>
           in if int (galleryIndex g2) < int (length (artworks g2)) - 1
              then Inr (startGalleryTimer c (g2\<lparr>galleryIndex := galleryIndex g2 + 1\<rparr>))
              else Inr (runArtEvaluation_call g2)
         else Inl TypeError)"

definition handleVote :: "Constants \<Rightarrow> string \<Rightarrow> bool \<Rightarrow> Game \<Rightarrow> error + Game" where
  "handleVote c vid yes g =
     (if galleryIndex g < length (artworks g) then
        let artworkId' = id_artwork (artworks g ! galleryIndex g)
        in if hasVoted (votes g) vid artworkId' then Inr g
           else
             let g1 = g\<lparr>votes := votes g @ [\<lparr>voterId = vid, artworkId = artworkId', isYes = yes\<rparr>]\<rparr>;
                 allVotedForThisArt = list_all (\<lambda>p. hasVoted (votes g1) (id_player p) artworkId') (players g1)
             in if allVotedForThisArt then nextGalleryItem c g1 else Inr g1
      else Inl TypeError)"

text \<open>The callback of the interval set by \<open>startGalleryTimer\<close>.\<close>

definition galleryTick :: "Constants \<Rightarrow> Game \<Rightarrow> error + Game" where
  "galleryTick c g =
     (let g1 = g\<lparr>galleryTime := galleryTime g - 1\<rparr>
      in if galleryTime g1 \<le> 0 then nextGalleryItem c g1 else Inr g1)"

subsection \<open>Scoring\<close>

record Bonus =
  quality :: int
  originality :: int

definition pointsByRank :: "int list" where
  "pointsByRank = [3, 2, 1]"

definition dodgerPoints :: "Game \<Rightarrow> int" where
  "dodgerPoints g =
     foldl (\<lambda>n vote.
              let votedArtwork = find (\<lambda>art. id_artwork art = artworkId vote) (artworks g)
              in if isYes vote \<and> (case votedArtwork of None \<Rightarrow> False | Some a \<Rightarrow> \<not> isDodger a)
                 then n + 1 else n)
           0 (votes g)"

definition initScoreMap :: "Artwork list \<Rightarrow> (int \<rightharpoonup> Bonus)" where
  "initScoreMap arts =
     foldl (\<lambda>m art. m(id_artwork art \<mapsto> \<lparr>quality = 0, originality = 0\<rparr>)) Map.empty arts"

definition applyRanking :: "(Bonus \<Rightarrow> int \<Rightarrow> Bonus) \<Rightarrow> int list \<Rightarrow> (int \<rightharpoonup> Bonus) \<Rightarrow> (int \<rightharpoonup> Bonus)" where
  "applyRanking setter ranking m0 =
     foldl (\<lambda>m (aid, index).
              if index < length pointsByRank
              then (case m aid of None \<Rightarrow> m
                    | Some currentScore \<Rightarrow> m(aid \<mapsto> setter currentScore (pointsByRank ! index)))
              else m)
           m0 (zip ranking [0..<length ranking])"

definition buildScoreMap :: "Rankings \<Rightarrow> Artwork list \<Rightarrow> (int \<rightharpoonup> Bonus)" where
  "buildScoreMap rankings arts =
     applyRanking (\<lambda>b v. b\<lparr>originality := v\<rparr>) (originalityRanking rankings)
       (applyRanking (\<lambda>b v. b\<lparr>quality := v\<rparr>) (qualityRanking rankings) (initScoreMap arts))"

definition scoreToAdd :: "Game \<Rightarrow> Artwork \<Rightarrow> int \<Rightarrow> (int \<rightharpoonup> Bonus) \<Rightarrow> Player \<Rightarrow> int" where
  "scoreToAdd g dodgerArtwork dp scoreMap p =
     (let s0 = 0;
          correctVote = (case find (\<lambda>v. voterId v = id_player p \<and> artworkId v = id_artwork dodgerArtwork)
                                   (votes g)
                         of None \<Rightarrow> False | Some v \<Rightarrow> isYes v);
          s1 = (if correctVote then s0 + 1 else s0);
          s2 = (if role p = Dodger then s1 + dp else s1)
      in case find (\<lambda>art. playerId art = id_player p) (artworks g) of
           None \<Rightarrow> s2
         | Some playerArtwork \<Rightarrow>
             (case scoreMap (id_artwork playerArtwork) of
                None \<Rightarrow> s2
              | Some bonus \<Rightarrow> s2 + (quality bonus + originality bonus)))"

definition calculateScores :: "Rankings \<Rightarrow> Game \<Rightarrow> Game" where
  "calculateScores rankings g =
     (case find isDodger (artworks g) of
        None \<Rightarrow> g
      | Some dodgerArtwork \<Rightarrow>
          let dp = dodgerPoints g;
              scoreMap = buildScoreMap rankings (artworks g)
          in g\<lparr>players := map (\<lambda>p. p\<lparr>score := score p + scoreToAdd g dodgerArtwork dp scoreMap p\<rparr>)
                             (players g),
               artworks := map (\<lambda>art. art\<lparr>qualityScore :=
                                             Some (case scoreMap (id_artwork art) of
                                                     None \<Rightarrow> 0 | Some b \<Rightarrow> quality b),
                                           originalityScore :=
                                             Some (case scoreMap (id_artwork art) of
                                                     None \<Rightarrow> 0 | Some b \<Rightarrow> originality b)\<rparr>)
                              (artworks g)\<rparr>)"

definition runArtEvaluation_resume :: "Rankings \<Rightarrow> Game \<Rightarrow> Game" where
  "runArtEvaluation_resume rankings g =
     (calculateScores rankings (g\<lparr>awaitingRankings := awaitingRankings g - 1\<rparr>))\<lparr>state := REVEAL\<rparr>"

definition nextRound :: "Constants \<Rightarrow> Game \<Rightarrow> Game" where
  "nextRound c g =
     (if state g \<noteq> REVEAL then g
      else if currentRound g < TOTAL_ROUNDS c
           then startNewRound_call (g\<lparr>currentRound := currentRound g + 1\<rparr>)
           else g\<lparr>state := GAME_OVER\<rparr>)"

record ServerGameState =
  state_out :: GameState
  players_out :: "Player list"
  currentRound_out :: int
  roundData_out :: "RoundData option"
  artworks_out :: "Artwork list"
  votes_out :: "Vote list"
  galleryIndex_out :: nat
  galleryTime_out :: int
  roundPoints :: int
  dodgerId_out :: "string option"

definition getSerializableState :: "Game \<Rightarrow> ServerGameState" where
  "getSerializableState g =
     \<lparr>state_out = state g, players_out = players g, currentRound_out = currentRound g,
      roundData_out = roundData g, artworks_out = artworks g, votes_out = votes g,
      galleryIndex_out = galleryIndex g, galleryTime_out = galleryTime g,
      roundPoints = int (length (filter
         (\<lambda>v. isYes v \<and> \<not> (case find (\<lambda>a. id_artwork a = artworkId v) (artworks g) of
                               None \<Rightarrow> False | Some a \<Rightarrow> isDodger a))
         (votes g))),
      dodgerId_out = dodgerId g\<rparr>"


section \<open>The dispatcher (server.ts)\<close>

text \<open>
  The handlers of \<open>startGame\<close>, \<open>nextRound\<close> and \<open>playAgain\<close>, applied to the socket's id
  and the game that \<open>getGame\<close> found (\<open>None\<close> when it found none).  \<open>game.players[0].id\<close>
  throws on an empty roster.
\<close>

definition on_startGame :: "string \<Rightarrow> Game option \<Rightarrow> error + Game option" where
  "on_startGame socket_id game =
     (case game of
        None \<Rightarrow> Inr None
      | Some g \<Rightarrow>
          (case players g of
             [] \<Rightarrow> Inl TypeError
           | host # _ \<Rightarrow> if id_player host = socket_id then Inr (Some (startGame g)) else Inr (Some g)))"

definition on_nextRound :: "Constants \<Rightarrow> string \<Rightarrow> Game option \<Rightarrow> error + Game option" where
  "on_nextRound c socket_id game =
     (case game of None \<Rightarrow> Inr None | Some g \<Rightarrow> Inr (Some (nextRound c g)))"

definition on_playAgain :: "string \<Rightarrow> Game option \<Rightarrow> error + Game option" where
  "on_playAgain socket_id game =
     (case game of
        None \<Rightarrow> Inr None
      | Some g \<Rightarrow>
          (case players g of
             [] \<Rightarrow> Inl TypeError
           | host # _ \<Rightarrow> if id_player host = socket_id then Inr (Some (resetGame g)) else Inr (Some g)))"

section \<open>Sessions as runs of events\<close>

text \<open>
  What can happen to a session: a call of a public method of \<open>Game\<close> with any arguments,
  the arrival of the result of an awaited call (with the values the outside world supplies:
  the round data and the random index, the image results and the shuffle, the rankings),
  and a tick of the gallery interval.  A continuation is enabled when a call of its method
  is suspended, a tick when the interval is live.  \<open>reachable\<close> are the states of the
  sessions that start from a new game and never throw.
\<close>

datatype event =
  AddPlayer string string
  | RemovePlayer string
  | StartGame
  | ResetGame
  | PlayerReady string
  | PromptSubmission string string
  | CastVote string bool
  | NextRound
  | RoundDataArrived RoundData nat
  | ImagesArrived "string option list" "nat list"
  | TimerTick
  | RankingsArrived Rankings

fun enabled :: "event \<Rightarrow> Game \<Rightarrow> bool" where
  "enabled (RoundDataArrived rd k) g =
     (awaitingRoundData g > 0 \<and> (k < length (players g) \<or> (players g = [] \<and> k = 0)))"
| "enabled (ImagesArrived urls perm) g =
     (awaitingImages g > 0 \<and> length urls = length (artworks g)
      \<and> is_shuffle perm (length (artworks g)))"
| "enabled TimerTick g = galleryTimer g"
| "enabled (RankingsArrived r) g = (awaitingRankings g > 0)"
| "enabled _ g = True"

fun step :: "Constants \<Rightarrow> event \<Rightarrow> Game \<Rightarrow> error + Game" where
  "step c (AddPlayer i n) g = Inr (addPlayer c i n g)"
| "step c (RemovePlayer i) g = Inr (removePlayer i g)"
| "step c StartGame g = Inr (startGame g)"
| "step c ResetGame g = Inr (resetGame g)"
| "step c (PlayerReady i) g = Inr (handlePlayerReady i g)"
| "step c (PromptSubmission i pr) g = Inr (handlePromptSubmission i pr g)"
| "step c (CastVote i yes) g = handleVote c i yes g"
| "step c NextRound g = Inr (nextRound c g)"
| "step c (RoundDataArrived rd k) g = startNewRound_resume rd k g"
| "step c (ImagesArrived urls perm) g = Inr (generateAllArtworks_resume c urls perm g)"
| "step c TimerTick g = galleryTick c g"
| "step c (RankingsArrived r) g = Inr (runArtEvaluation_resume r g)"

text \<open>A run stops with \<open>None\<close> at an event that cannot happen or that throws.\<close>

fun run :: "Constants \<Rightarrow> event list \<Rightarrow> Game \<Rightarrow> Game option" where
  "run c [] g = Some g"
| "run c (e # es) g =
     (if enabled e g then (case step c e g of Inl _ \<Rightarrow> None | Inr g' \<Rightarrow> run c es g') else None)"

inductive reachable :: "Constants \<Rightarrow> Game \<Rightarrow> bool" for c :: Constants where
  reachable_new: "reachable c (newGame c rid)"
| reachable_step: "reachable c g \<Longrightarrow> enabled e g \<Longrightarrow> step c e g = Inr g' \<Longrightarrow> reachable c g'"

section \<open>The content-generation service (geminiService.ts)\<close>

text \<open>
  A thrown value, as far as \<open>withRetry\<close> looks at it: \<open>error?.message\<close> and
  \<open>JSON.stringify(error)\<close>, each possibly undefined.  An awaited call resolves with a value
  or rejects with a thrown value.
\<close>

record thrown =
  message :: "string option"
  stringified :: "string option"

datatype 'a outcome = Resolved 'a | Rejected thrown

definition Error :: "string \<Rightarrow> thrown" where
  "Error msg = \<lparr>message = Some msg, stringified = Some ''{}''\<rparr>"

definition toLowerCase :: "string \<Rightarrow> string" where
  "toLowerCase s =
     map (\<lambda>ch. let n = (of_char ch :: nat) in if 65 \<le> n \<and> n \<le> 90 then char_of (n + 32) else ch) s"

fun includes_str :: "string \<Rightarrow> string \<Rightarrow> bool" where
  "includes_str [] sub = (sub = [])"
| "includes_str (x # xs) sub = (take (length sub) (x # xs) = sub \<or> includes_str xs sub)"

text \<open>
  \<open>(error?.message || JSON.stringify(error)).toLowerCase()\<close>: an absent or empty message
  gives way to the stringified error, and \<open>toLowerCase\<close> of undefined throws.
\<close>

definition errorMessage :: "thrown \<Rightarrow> thrown + string" where
  "errorMessage error =
     (case (case message error of Some m \<Rightarrow> (if m \<noteq> [] then Some m else stringified error)
                                | None \<Rightarrow> stringified error) of
        Some s \<Rightarrow> Inr (toLowerCase s)
      | None \<Rightarrow> Inl (Error ''Cannot read properties of undefined (reading 'toLowerCase')''))"

definition maxRetries :: nat where
  "maxRetries = 3"

text \<open>
  The loop of \<open>withRetry\<close>.  \<open>apiCall n\<close> is the outcome of the call made after \<open>n\<close> failed
  attempts.  The waiting between attempts is left out.
\<close>

function withRetry_from :: "(nat \<Rightarrow> 'a outcome) \<Rightarrow> nat \<Rightarrow> thrown + 'a" where
  "withRetry_from apiCall attempt =
     (if attempt < maxRetries then
        (case apiCall attempt of
           Resolved v \<Rightarrow> Inr v
         | Rejected error \<Rightarrow>
             (case errorMessage error of
                Inl t \<Rightarrow> Inl t
              | Inr errorMessage' \<Rightarrow>
                  let isRateLimitError =
                        (includes_str errorMessage' ''429'' \<or> includes_str errorMessage' ''resource_exhausted'')
                  in if isRateLimitError \<and> attempt + 1 < maxRetries
                     then withRetry_from apiCall (attempt + 1)
                     else Inl error))
      else Inl (Error ''API call failed after all retries.''))"
  by pat_completeness auto
termination
  by (relation "measure (\<lambda>(apiCall, attempt). maxRetries - attempt)") auto

definition withRetry :: "(nat \<Rightarrow> 'a outcome) \<Rightarrow> thrown + 'a" where
  "withRetry apiCall = withRetry_from apiCall 0"

definition try_catch :: "(thrown + 'a) \<Rightarrow> (thrown \<Rightarrow> thrown + 'a) \<Rightarrow> thrown + 'a" where
  "try_catch body handler = (case body of Inl error \<Rightarrow> handler error | Inr v \<Rightarrow> Inr v)"

record Image =
  imageBytes :: "string option"

record GeneratedImage =
  image :: "Image option"

record GenerateImagesResponse =
  generatedImages :: "GeneratedImage list option"

text \<open>The function passed to \<open>withRetry\<close> by \<open>generateImage\<close>; \<open>sdk n\<close> is the outcome of
  \<open>ai.models.generateImages\<close> at the attempt \<open>n\<close>.\<close>

definition imageCall :: "(nat \<Rightarrow> GenerateImagesResponse outcome) \<Rightarrow> nat \<Rightarrow> string option outcome" where
  "imageCall sdk n =
     (case sdk n of
        Rejected error \<Rightarrow> Rejected error
      | Resolved response \<Rightarrow>
          Resolved
            (case generatedImages response of
               Some (firstImage # _) \<Rightarrow>
                 (case image firstImage of
                    Some img \<Rightarrow>
                      (case imageBytes img of
                         Some bytes \<Rightarrow> if bytes \<noteq> [] then Some bytes else None
                       | None \<Rightarrow> None)
                  | None \<Rightarrow> None)
             | _ \<Rightarrow> None))"

definition generateImage :: "(nat \<Rightarrow> GenerateImagesResponse outcome) \<Rightarrow> thrown + string option" where
  "generateImage sdk = try_catch (withRetry (imageCall sdk)) (\<lambda>error. Inr None)"

record GenerateContentResponse =
  response_text :: "string option"

text \<open>
  The function passed to \<open>withRetry\<close> by \<open>generateRoundData\<close>.  \<open>parse\<close> stands for
  \<open>JSON.parse\<close> of the trimmed text: it throws or gives the object that the code returns
  as a \<open>RoundData\<close>.
\<close>

definition roundDataCall ::
  "(nat \<Rightarrow> GenerateContentResponse outcome) \<Rightarrow> (string \<Rightarrow> thrown + RoundData) \<Rightarrow> nat \<Rightarrow> RoundData outcome" where
  "roundDataCall sdk parse n =
     (case sdk n of
        Rejected error \<Rightarrow> Rejected error
      | Resolved response \<Rightarrow>
          (case response_text response of
             None \<Rightarrow> Rejected (Error ''AI response text is undefined.'')
           | Some t \<Rightarrow>
               if t = [] then Rejected (Error ''AI response text is undefined.'')
               else (case parse t of Inl error \<Rightarrow> Rejected error | Inr rd \<Rightarrow> Resolved rd)))"

definition fallbackRoundData :: RoundData where
  "fallbackRoundData =
     \<lparr>theme = ''A Cyberpunk Megacity During a Rainstorm'', motif1 = ''Dragon'', motif2 = ''Compass''\<rparr>"

definition generateRoundData ::
  "(nat \<Rightarrow> GenerateContentResponse outcome) \<Rightarrow> (string \<Rightarrow> thrown + RoundData) \<Rightarrow> thrown + RoundData" where
  "generateRoundData sdk parse =
     try_catch (withRetry (roundDataCall sdk parse)) (\<lambda>error. Inr fallbackRoundData)"

section \<open>The votes ledger and the artwork list\<close>

text \<open>
  \<open>votes_unique\<close>: no (voter, artwork) pair occurs twice.  \<open>votes_on\<close>: the votes of one
  voter on one artwork.  \<open>ledger_ok\<close>: the pairs are unique, every vote is on an artwork of
  the list, and the artworks are numbered without repetition from 1 to their number.
\<close>

definition vote_key :: "Vote \<Rightarrow> string \<times> int" where
  "vote_key v = (voterId v, artworkId v)"

definition votes_unique :: "Vote list \<Rightarrow> bool" where
  "votes_unique vs = distinct (map vote_key vs)"

definition votes_on :: "Vote list \<Rightarrow> string \<Rightarrow> int \<Rightarrow> Vote list" where
  "votes_on vs pid aid = filter (\<lambda>v. voterId v = pid \<and> artworkId v = aid) vs"

definition ledger_ok :: "Game \<Rightarrow> bool" where
  "ledger_ok g =
     (votes_unique (votes g)
      \<and> (\<forall>v\<in>set (votes g). artworkId v \<in> id_artwork ` set (artworks g))
      \<and> distinct (map id_artwork (artworks g))
      \<and> (\<forall>a\<in>set (artworks g). 1 \<le> id_artwork a \<and> id_artwork a \<le> int (length (artworks g))))"

section \<open>Advancing the gallery cursor\<close>

text \<open>
  \<open>advances e g\<close>: the event \<open>e\<close>, happening in \<open>g\<close>, makes the code call
  \<open>nextGalleryItem\<close> (the countdown reaches zero, or the vote cast is the last one missing).
  \<open>explicit_votes e g\<close> is the ledger as that call finds it.
\<close>

definition currentArtworkId :: "Game \<Rightarrow> int" where
  "currentArtworkId g = id_artwork (artworks g ! galleryIndex g)"

fun advances :: "event \<Rightarrow> Game \<Rightarrow> bool" where
  "advances TimerTick g = (galleryTime g - 1 \<le> 0)"
| "advances (CastVote i yes) g =
     (galleryIndex g < length (artworks g)
      \<and> \<not> hasVoted (votes g) i (currentArtworkId g)
      \<and> list_all (\<lambda>p. hasVoted (votes g @ [\<lparr>voterId = i, artworkId = currentArtworkId g, isYes = yes\<rparr>])
                          (id_player p) (currentArtworkId g))
                  (players g))"
| "advances _ g = False"

fun explicit_votes :: "event \<Rightarrow> Game \<Rightarrow> Vote list" where
  "explicit_votes (CastVote i yes) g =
     votes g @ [\<lparr>voterId = i, artworkId = currentArtworkId g, isYes = yes\<rparr>]"
| "explicit_votes _ g = votes g"

section \<open>The scoring rules in the words of the specification\<close>

text \<open>
  Deception points: the number of approving votes whose target artwork exists and is not
  the deviator's.
\<close>

definition spec_deceptionPoints :: "Game \<Rightarrow> int" where
  "spec_deceptionPoints g =
     int (length (filter (\<lambda>v. isYes v \<and> list_ex (\<lambda>a. id_artwork a = artworkId v \<and> \<not> isDodger a) (artworks g))
                         (votes g)))"

text \<open>
  The bonus of an artwork in a ranking: 3, 2 or 1 for the first, second or third place,
  nothing below.  The score a player gains in the scoring pass: 1 for an approving vote on
  the deviator's artwork, the deception points for the deviator, and the two bonuses of
  the player's own artwork.
\<close>

definition spec_rankBonus :: "int list \<Rightarrow> int \<Rightarrow> int" where
  "spec_rankBonus ranking aid =
     (if 0 < length ranking \<and> ranking ! 0 = aid then 3
      else if 1 < length ranking \<and> ranking ! 1 = aid then 2
      else if 2 < length ranking \<and> ranking ! 2 = aid then 1
      else 0)"

definition spec_scoreDelta :: "Game \<Rightarrow> Artwork \<Rightarrow> Rankings \<Rightarrow> Player \<Rightarrow> int" where
  "spec_scoreDelta g dodgerArtwork r p =
     (if list_ex (\<lambda>v. voterId v = id_player p \<and> artworkId v = id_artwork dodgerArtwork \<and> isYes v) (votes g)
      then 1 else 0)
     + (if role p = Dodger then spec_deceptionPoints g else 0)
     + (case find (\<lambda>a. playerId a = id_player p) (artworks g) of
          None \<Rightarrow> 0
        | Some a \<Rightarrow> spec_rankBonus (qualityRanking r) (id_artwork a)
                    + spec_rankBonus (originalityRanking r) (id_artwork a))"

text \<open>The body of the \<open>forEach\<close> of \<open>applyRanking\<close>, named for the proofs.\<close>

definition rankStep :: "(Bonus \<Rightarrow> int \<Rightarrow> Bonus) \<Rightarrow> (int \<rightharpoonup> Bonus) \<Rightarrow> int \<times> nat \<Rightarrow> (int \<rightharpoonup> Bonus)" where
  "rankStep setter m z =
     (case z of (aid, index) \<Rightarrow>
        if index < length pointsByRank
        then (case m aid of None \<Rightarrow> m
              | Some currentScore \<Rightarrow> m(aid \<mapsto> setter currentScore (pointsByRank ! index)))
        else m)"


section \<open>The deviator during play\<close>

text \<open>
  \<open>dodger_ok\<close>: exactly one entry of the roster has the role \<open>Dodger\<close>, \<open>dodgerId\<close> is its
  id, every flagged artwork is by that id, and there is one flagged artwork if that player
  has submitted and none otherwise.  \<open>in_play\<close>: the states from the completion of a round
  setup on, as long as the deviator is not removed (\<open>removes_dodger\<close>: the event removes the
  player whose id is \<open>dodgerId\<close>).  \<open>run_keeping_dodger\<close> is \<open>run\<close> with that test at every
  event.
\<close>

definition dodgers :: "Game \<Rightarrow> Player list" where
  "dodgers g = filter (\<lambda>p. role p = Dodger) (players g)"

definition dodger_ok :: "Game \<Rightarrow> bool" where
  "dodger_ok g =
     (\<exists>d. dodgers g = [d] \<and> dodgerId g = Some (id_player d)
          \<and> (\<forall>a\<in>set (artworks g). isDodger a \<longrightarrow> playerId a = id_player d)
          \<and> length (filter isDodger (artworks g)) = (if promptSubmitted d then 1 else 0))"

fun removes_dodger :: "event \<Rightarrow> Game \<Rightarrow> bool" where
  "removes_dodger (RemovePlayer i) g = (dodgerId g = Some i)"
| "removes_dodger _ g = False"

inductive in_play :: "Constants \<Rightarrow> Game \<Rightarrow> bool" for c :: Constants where
  in_play_setup:
    "reachable c g \<Longrightarrow> enabled (RoundDataArrived rd k) g \<Longrightarrow>
     step c (RoundDataArrived rd k) g = Inr g' \<Longrightarrow> in_play c g'"
| in_play_step:
    "in_play c g \<Longrightarrow> enabled e g \<Longrightarrow> \<not> removes_dodger e g \<Longrightarrow>
     step c e g = Inr g' \<Longrightarrow> in_play c g'"

fun run_keeping_dodger :: "Constants \<Rightarrow> event list \<Rightarrow> Game \<Rightarrow> Game option" where
  "run_keeping_dodger c [] g = Some g"
| "run_keeping_dodger c (e # es) g =
     (if enabled e g \<and> \<not> removes_dodger e g
      then (case step c e g of Inl _ \<Rightarrow> None | Inr g' \<Rightarrow> run_keeping_dodger c es g')
      else None)"

section \<open>Example sessions\<close>

definition rd0 :: RoundData where
  "rd0 = \<lparr>theme = ''A library inside a giant tree'', motif1 = ''Key'', motif2 = ''Dragon''\<rparr>"

definition c2 :: Constants where
  "c2 = \<lparr>TOTAL_ROUNDS = 3, TOTAL_PLAYERS = 4, GALLERY_TIMER_SECONDS = 2\<rparr>"

definition round_to_gallery :: "event list" where
  "round_to_gallery =
     [AddPlayer ''a'' ''Ann'', AddPlayer ''b'' ''Bob'', StartGame, RoundDataArrived rd0 0,
      PlayerReady ''a'', PlayerReady ''b'',
      PromptSubmission ''a'' ''a dragon guarding a key'', PromptSubmission ''b'' ''a quiet reading room'',
      ImagesArrived [Some ''img1'', None] [1, 0]]"

definition timeout_trace :: "event list" where
  "timeout_trace = round_to_gallery @ [CastVote ''b'' True, TimerTick]"

definition before_timeout :: Game where
  "before_timeout = the (run c2 timeout_trace (newGame c2 ''ABCD''))"

definition after_timeout :: Game where
  "after_timeout = the (run c2 (timeout_trace @ [TimerTick]) (newGame c2 ''ABCD''))"

definition round_to_scoring :: "event list" where
  "round_to_scoring = round_to_gallery @
     [CastVote ''a'' True, CastVote ''b'' True, CastVote ''a'' True, CastVote ''b'' True]"

definition rankings12 :: Rankings where
  "rankings12 = \<lparr>qualityRanking = [1, 2], originalityRanking = [1, 2]\<rparr>"

definition full_round :: "event list" where
  "full_round = round_to_scoring @ [RankingsArrived rankings12]"

definition scoring_state :: Game where
  "scoring_state = the (run c2 round_to_scoring (newGame c2 ''ABCD''))"

definition reveal_state :: Game where
  "reveal_state = the (run c2 full_round (newGame c2 ''ABCD''))"

definition lobby_state :: Game where
  "lobby_state = the (run c2 [AddPlayer ''a'' ''Ann''] (newGame c2 ''ABCD''))"

definition early_leave :: "event list" where
  "early_leave =
     [AddPlayer ''a'' ''Ann'', AddPlayer ''b'' ''Bob'', AddPlayer ''c'' ''Cy'', StartGame,
      RoundDataArrived rd0 1, PlayerReady ''a'', RemovePlayer ''a'']"

definition briefing_state :: Game where
  "briefing_state = the (run c2 early_leave (newGame c2 ''ABCD''))"

definition briefing_two :: Game where
  "briefing_two =
     the (run c2 [AddPlayer ''a'' ''Ann'', AddPlayer ''b'' ''Bob'', StartGame, RoundDataArrived rd0 0,
                  PlayerReady ''a''] (newGame c2 ''ABCD''))"

definition dodger_leaves :: "event list" where
  "dodger_leaves =
     [AddPlayer ''a'' ''Ann'', AddPlayer ''b'' ''Bob'', AddPlayer ''c'' ''Cy'', StartGame,
      RoundDataArrived rd0 0, RemovePlayer ''a'', PlayerReady ''b'', PlayerReady ''c'',
      PromptSubmission ''b'' ''a quiet reading room'', PromptSubmission ''c'' ''owls on the shelves'']"

definition no_dodger_state :: Game where
  "no_dodger_state = the (run c2 dodger_leaves (newGame c2 ''ABCD''))"

definition started_state :: Game where
  "started_state =
     the (run c2 [AddPlayer ''a'' ''Ann'', AddPlayer ''b'' ''Bob'', AddPlayer ''c'' ''Cy'', StartGame]
            (newGame c2 ''ABCD''))"

definition briefing_start :: Game where
  "briefing_start =
     the (run c2 [AddPlayer ''a'' ''Ann'', AddPlayer ''b'' ''Bob'', AddPlayer ''c'' ''Cy'', StartGame,
                  RoundDataArrived rd0 0] (newGame c2 ''ABCD''))"

definition bystander_leaves :: "event list" where
  "bystander_leaves =
     [RemovePlayer ''c'', PlayerReady ''a'', PlayerReady ''b'',
      PromptSubmission ''a'' ''a dragon guarding a key'', PromptSubmission ''b'' ''a quiet reading room'']"

definition all_submitted_state :: Game where
  "all_submitted_state = the (run_keeping_dodger c2 bystander_leaves briefing_start)"

text \<open>A service that answers every call with a rate-limit error.\<close>

definition rate_limited :: "nat \<Rightarrow> 'a outcome" where
  "rate_limited n = Rejected \<lparr>message = Some ''429 Too Many Requests'', stringified = Some ''{}''\<rparr>"

section \<open>Facts about lists\<close>

lemma find_update_first:
  "find P xs = Some x \<Longrightarrow> P (f x) \<Longrightarrow> find P (update_first P f xs) = Some (f x)"
  by (induction xs) (auto split: if_splits)

lemma length_update_first: "length (update_first P f xs) = length xs"
  by (induction xs) auto

lemma filter_update_first_other:
  "find P xs = Some x \<Longrightarrow> \<not> Q x \<Longrightarrow> \<not> Q (f x) \<Longrightarrow> filter Q (update_first P f xs) = filter Q xs"
  by (induction xs) (auto split: if_splits)

lemma filter_update_first_same:
  "find P xs = Some x \<Longrightarrow> Q x \<Longrightarrow> Q (f x) \<Longrightarrow>
   filter Q (update_first P f xs) = update_first P f (filter Q xs)"
  by (induction xs) (auto split: if_splits)

lemma find_Some_mem: "find P xs = Some x \<Longrightarrow> x \<in> set xs \<and> P x"
  by (induction xs) (auto split: if_splits)

lemma find_None_iff_all: "find P xs = None \<longleftrightarrow> (\<forall>x\<in>set xs. \<not> P x)"
  by (induction xs) auto

lemma filter_update_single:
  "\<forall>p\<in>set xs. \<not> Q p \<Longrightarrow> k < length xs \<Longrightarrow> Q y \<Longrightarrow> filter Q (xs[k := y]) = [y]"
proof (induction xs arbitrary: k)
  case Nil
  then show ?case by simp
next
  case (Cons x xs)
  show ?case
  proof (cases k)
    case 0
    with Cons.prems show ?thesis by (simp add: filter_empty_conv)
  next
    case (Suc j)
    with Cons show ?thesis by simp
  qed
qed

lemma count_foldl:
  "foldl (\<lambda>n v. if P v then n + 1 else n) (k::int) vs = k + int (length (filter P vs))"
  by (induction vs arbitrary: k) auto

lemma distinct_map_eq:
  "distinct (map f xs) \<Longrightarrow> x \<in> set xs \<Longrightarrow> y \<in> set xs \<Longrightarrow> f x = f y \<Longrightarrow> x = y"
  by (auto simp: distinct_map dest: inj_onD)

lemma find_distinct_key:
  "distinct (map f xs) \<Longrightarrow> x \<in> set xs \<Longrightarrow> find (\<lambda>y. f y = f x) xs = Some x"
proof -
  assume d: "distinct (map f xs)" and m: "x \<in> set xs"
  then obtain y where y: "find (\<lambda>y. f y = f x) xs = Some y"
    by (cases "find (\<lambda>y. f y = f x) xs") (auto simp: find_None_iff_all)
  then have "y \<in> set xs" "f y = f x" using find_Some_mem[OF y] by auto
  with d m have "y = x" by (auto dest: distinct_map_eq)
  with y show ?thesis by simp
qed

section \<open>A shuffle permutes\<close>

lemma is_shuffle_mset: "is_shuffle perm n \<Longrightarrow> mset perm = mset [0..<n]"
proof -
  assume s: "is_shuffle perm n"
  then have l: "length perm = n" and d: "distinct perm" and b: "set perm \<subseteq> {0..<n}"
    by (auto simp: is_shuffle_def list_all_iff)
  have "card (set perm) = n" using l d by (simp add: distinct_card)
  then have "set perm = set [0..<n]" using b by (simp add: card_subset_eq)
  then show ?thesis using d set_eq_iff_mset_eq_distinct[of perm "[0..<n]"] by simp
qed

lemma mset_shuffleArray:
  "is_shuffle perm (length xs) \<Longrightarrow> mset (shuffleArray perm xs) = mset xs"
proof -
  assume s: "is_shuffle perm (length xs)"
  have "mset (map (\<lambda>i. xs ! i) perm) = image_mset (\<lambda>i. xs ! i) (mset perm)" by simp
  also have "\<dots> = image_mset (\<lambda>i. xs ! i) (mset [0..<length xs])"
    using is_shuffle_mset[OF s] by simp
  also have "\<dots> = mset (map (\<lambda>i. xs ! i) [0..<length xs])" by simp
  also have "\<dots> = mset xs" by (simp add: map_nth)
  finally show ?thesis by (simp add: shuffleArray_def)
qed

lemma map_set_urls:
  "length urls = length arts \<Longrightarrow> (\<And>a u. h (a\<lparr>imageUrl := u\<rparr>) = h a) \<Longrightarrow>
   map h (map (\<lambda>(art, u). art\<lparr>imageUrl := u\<rparr>) (zip arts urls)) = map h arts"
  by (induction urls arts rule: list_induct2) auto

section \<open>Unique votes and the synthesized ones\<close>

lemma hasVoted_iff: "hasVoted vs pid aid \<longleftrightarrow> (pid, aid) \<in> set (map vote_key vs)"
  by (auto simp: hasVoted_def list_ex_iff vote_key_def)

lemma votes_unique_snoc:
  "votes_unique (vs @ [v]) \<longleftrightarrow> votes_unique vs \<and> \<not> hasVoted vs (voterId v) (artworkId v)"
  by (auto simp: votes_unique_def hasVoted_iff vote_key_def)

lemma votes_on_unique:
  "votes_unique vs \<Longrightarrow> length (votes_on vs pid aid) = (if hasVoted vs pid aid then 1 else 0)"
proof (induction vs)
  case Nil
  then show ?case by (simp add: votes_on_def hasVoted_def)
next
  case (Cons v vs)
  then have u: "votes_unique vs" and n: "vote_key v \<notin> set (map vote_key vs)"
    by (auto simp: votes_unique_def)
  show ?case
  proof (cases "voterId v = pid \<and> artworkId v = aid")
    case True
    with n have "\<not> hasVoted vs pid aid" by (auto simp: hasVoted_iff vote_key_def)
    with Cons.IH[OF u] True show ?thesis by (simp add: votes_on_def hasVoted_def)
  next
    case False
    with Cons.IH[OF u] show ?thesis by (auto simp: votes_on_def hasVoted_def)
  qed
qed

lemma fillNoVotes_Nil: "fillNoVotes aid [] vs = vs"
  by (simp add: fillNoVotes_def)

lemma fillNoVotes_Cons:
  "fillNoVotes aid (p # ps) vs =
     fillNoVotes aid ps (if \<not> hasVoted vs (id_player p) aid
                         then vs @ [\<lparr>voterId = id_player p, artworkId = aid, isYes = False\<rparr>] else vs)"
  by (simp add: fillNoVotes_def)

lemma fillNoVotes_unique: "votes_unique vs \<Longrightarrow> votes_unique (fillNoVotes aid ps vs)"
  by (induction ps arbitrary: vs) (auto simp: fillNoVotes_Nil fillNoVotes_Cons votes_unique_snoc)

lemma fillNoVotes_append:
  "\<exists>synth. fillNoVotes aid ps vs = vs @ synth \<and>
     (\<forall>v\<in>set synth. \<not> isYes v \<and> artworkId v = aid \<and> voterId v \<in> id_player ` set ps
                    \<and> \<not> hasVoted vs (voterId v) aid)"
proof (induction ps arbitrary: vs)
  case Nil
  then show ?case by (simp add: fillNoVotes_Nil)
next
  case (Cons p ps)
  show ?case
  proof (cases "hasVoted vs (id_player p) aid")
    case True
    from Cons.IH[of vs] obtain synth where
      "fillNoVotes aid ps vs = vs @ synth"
      "\<forall>v\<in>set synth. \<not> isYes v \<and> artworkId v = aid \<and> voterId v \<in> id_player ` set ps
                    \<and> \<not> hasVoted vs (voterId v) aid" by blast
    with True show ?thesis by (auto simp: fillNoVotes_Cons)
  next
    case False
    let ?n = "\<lparr>voterId = id_player p, artworkId = aid, isYes = False\<rparr>"
    from Cons.IH[of "vs @ [?n]"] obtain synth where s:
      "fillNoVotes aid ps (vs @ [?n]) = (vs @ [?n]) @ synth"
      "\<forall>v\<in>set synth. \<not> isYes v \<and> artworkId v = aid \<and> voterId v \<in> id_player ` set ps
                    \<and> \<not> hasVoted (vs @ [?n]) (voterId v) aid" by blast
    have "fillNoVotes aid (p # ps) vs = vs @ (?n # synth)"
      using False s(1) by (simp add: fillNoVotes_Cons)
    moreover have "\<forall>v\<in>set (?n # synth). \<not> isYes v \<and> artworkId v = aid
                    \<and> voterId v \<in> id_player ` set (p # ps) \<and> \<not> hasVoted vs (voterId v) aid"
      using False s(2) by (auto simp: hasVoted_def)
    ultimately show ?thesis by blast
  qed
qed

lemma hasVoted_append: "hasVoted vs pid aid \<Longrightarrow> hasVoted (vs @ ws) pid aid"
  by (auto simp: hasVoted_def)

lemma fillNoVotes_keeps: "hasVoted vs pid aid' \<Longrightarrow> hasVoted (fillNoVotes aid ps vs) pid aid'"
  using fillNoVotes_append[of aid ps vs] by (auto simp: hasVoted_append)

lemma fillNoVotes_hasVoted: "p \<in> set ps \<Longrightarrow> hasVoted (fillNoVotes aid ps vs) (id_player p) aid"
proof (induction ps arbitrary: vs)
  case Nil
  then show ?case by simp
next
  case (Cons q ps)
  show ?case
  proof (cases "p = q")
    case True
    have "hasVoted (if \<not> hasVoted vs (id_player q) aid
                         then vs @ [\<lparr>voterId = id_player q, artworkId = aid, isYes = False\<rparr>] else vs)
            (id_player q) aid"
      by (auto simp: hasVoted_def)
    then show ?thesis using True by (simp add: fillNoVotes_Cons fillNoVotes_keeps)
  next
    case False
    with Cons.prems have "p \<in> set ps" by simp
    then show ?thesis by (simp add: fillNoVotes_Cons Cons.IH)
  qed
qed

section \<open>Every step keeps the ledger in order\<close>

lemma ledger_ok_same:
  "votes g' = votes g \<Longrightarrow> artworks g' = artworks g \<Longrightarrow> ledger_ok g' = ledger_ok g"
  by (simp add: ledger_ok_def)

lemma ledger_ok_newGame: "ledger_ok (newGame c rid)"
  by (simp add: ledger_ok_def newGame_def votes_unique_def)

lemma ledger_ok_addPlayer: "ledger_ok g \<Longrightarrow> ledger_ok (addPlayer c i n g)"
  by (simp add: addPlayer_def ledger_ok_def)

lemma ledger_ok_removePlayer: "ledger_ok g \<Longrightarrow> ledger_ok (removePlayer i g)"
  by (simp add: removePlayer_def ledger_ok_def Let_def)

lemma ledger_ok_startGame: "ledger_ok g \<Longrightarrow> ledger_ok (startGame g)"
  by (simp add: startGame_def startNewRound_call_def ledger_ok_def)

lemma ledger_ok_resetGame: "ledger_ok g \<Longrightarrow> ledger_ok (resetGame g)"
  by (simp add: resetGame_def ledger_ok_def)

lemma ledger_ok_handlePlayerReady: "ledger_ok g \<Longrightarrow> ledger_ok (handlePlayerReady i g)"
  by (simp add: handlePlayerReady_def ledger_ok_def Let_def)

lemma ledger_ok_nextRound: "ledger_ok g \<Longrightarrow> ledger_ok (nextRound c g)"
  by (simp add: nextRound_def startNewRound_call_def ledger_ok_def)

lemma ledger_ok_startNewRound_resume:
  "startNewRound_resume rd k g = Inr g' \<Longrightarrow> ledger_ok g'"
  by (auto simp: startNewRound_resume_def ledger_ok_def votes_unique_def Let_def split: if_splits)

lemma ledger_ok_push_artwork:
  assumes "ledger_ok g" and "id_artwork a = int (length (artworks g)) + 1"
  shows "ledger_ok (g\<lparr>artworks := artworks g @ [a]\<rparr>)"
  using assms by (fastforce simp: ledger_ok_def)

lemma ledger_ok_handlePromptSubmission:
  assumes "ledger_ok g" shows "ledger_ok (handlePromptSubmission i pr g)"
proof (cases "find (\<lambda>p. id_player p = i) (players g)")
  case None
  with assms show ?thesis by (simp add: handlePromptSubmission_def)
next
  case (Some player)
  show ?thesis
  proof (cases "promptSubmitted player")
    case True
    with Some assms show ?thesis by (simp add: handlePromptSubmission_def)
  next
    case False
    let ?a = "\<lparr>id_artwork = int (length (artworks g)) + 1, playerId = i, prompt = pr, imageUrl = None,
               isDodger = (role player = Dodger), qualityScore = None, originalityScore = None\<rparr>"
    have "ledger_ok (g\<lparr>artworks := artworks g @ [?a]\<rparr>)"
      by (rule ledger_ok_push_artwork[OF assms]) simp
    then show ?thesis using Some False
      by (simp add: handlePromptSubmission_def Let_def generateAllArtworks_call_def ledger_ok_def)
  qed
qed

lemma ledger_ok_generateAllArtworks_resume:
  assumes ok: "ledger_ok g" and len: "length urls = length (artworks g)"
      and sh: "is_shuffle perm (length (artworks g))"
  shows "ledger_ok (generateAllArtworks_resume c urls perm g)"
proof -
  let ?arts = "map (\<lambda>(art, u). art\<lparr>imageUrl := u\<rparr>) (zip (artworks g) urls)"
  let ?new = "shuffleArray perm ?arts"
  have l: "length ?arts = length (artworks g)" using len by simp
  have ids: "map id_artwork ?arts = map id_artwork (artworks g)"
    by (rule map_set_urls[OF len]) simp
  have m: "mset ?new = mset ?arts" using sh l by (simp add: mset_shuffleArray)
  then have mi: "mset (map id_artwork ?new) = mset (map id_artwork (artworks g))"
    using ids by (metis mset_map)
  have d: "distinct (map id_artwork ?new)"
    using mi ok by (metis ledger_ok_def mset_eq_imp_distinct_iff)
  have s: "id_artwork ` set ?new = id_artwork ` set (artworks g)"
    using mi by (metis mset_eq_setD set_map)
  have ln: "length ?new = length (artworks g)" using m l by (metis size_mset)
  have a: "artworks (generateAllArtworks_resume c urls perm g) = ?new"
    and v: "votes (generateAllArtworks_resume c urls perm g) = votes g"
    by (simp_all add: generateAllArtworks_resume_def startGalleryTimer_def)
  have b: "\<forall>a\<in>set ?new. 1 \<le> id_artwork a \<and> id_artwork a \<le> int (length ?new)"
  proof
    fix x assume "x \<in> set ?new"
    then have "id_artwork x \<in> id_artwork ` set (artworks g)" using s by blast
    then show "1 \<le> id_artwork x \<and> id_artwork x \<le> int (length ?new)"
      using ok ln by (auto simp: ledger_ok_def)
  qed
  show ?thesis unfolding ledger_ok_def a v using ok d s b by (simp add: ledger_ok_def)
qed

lemma ledger_ok_nextGalleryItem:
  assumes "ledger_ok g" and "nextGalleryItem c g = Inr g'"
  shows "ledger_ok g'"
proof -
  from assms(2) have i: "galleryIndex g < length (artworks g)"
    by (auto simp: nextGalleryItem_def Let_def split: if_splits)
  let ?aid = "id_artwork (artworks g ! galleryIndex g)"
  let ?vs = "fillNoVotes ?aid (players g) (votes g)"
  have a: "artworks g' = artworks g" and v: "votes g' = ?vs"
    using assms(2) i
    by (auto simp: nextGalleryItem_def Let_def startGalleryTimer_def runArtEvaluation_call_def
             split: if_splits)
  have u: "votes_unique ?vs" using assms(1) by (simp add: ledger_ok_def fillNoVotes_unique)
  obtain synth where s: "?vs = votes g @ synth" "\<forall>v\<in>set synth. artworkId v = ?aid"
    using fillNoVotes_append[of ?aid "players g" "votes g"] by blast
  have "?aid \<in> id_artwork ` set (artworks g)" using i by simp
  then have t: "\<forall>v\<in>set ?vs. artworkId v \<in> id_artwork ` set (artworks g)"
    using assms(1) s by (auto simp: ledger_ok_def)
  show ?thesis unfolding ledger_ok_def a v using u t assms(1) by (simp add: ledger_ok_def)
qed

lemma ledger_ok_handleVote:
  assumes "ledger_ok g" and "handleVote c i yes g = Inr g'"
  shows "ledger_ok g'"
proof -
  from assms(2) have idx: "galleryIndex g < length (artworks g)"
    by (auto simp: handleVote_def split: if_splits)
  let ?aid = "id_artwork (artworks g ! galleryIndex g)"
  show ?thesis
  proof (cases "hasVoted (votes g) i ?aid")
    case True
    with assms idx show ?thesis by (simp add: handleVote_def Let_def)
  next
    case False
    let ?g1 = "g\<lparr>votes := votes g @ [\<lparr>voterId = i, artworkId = ?aid, isYes = yes\<rparr>]\<rparr>"
    have "?aid \<in> id_artwork ` set (artworks g)" using idx by simp
    then have ok1: "ledger_ok ?g1"
      using assms(1) False by (auto simp: ledger_ok_def votes_unique_snoc)
    from assms(2) idx False have "g' = ?g1 \<or> nextGalleryItem c ?g1 = Inr g'"
      by (auto simp: handleVote_def Let_def split: if_splits)
    then show ?thesis using ok1 ledger_ok_nextGalleryItem by blast
  qed
qed

lemma ledger_ok_galleryTick:
  assumes "ledger_ok g" and "galleryTick c g = Inr g'"
  shows "ledger_ok g'"
proof -
  let ?g1 = "g\<lparr>galleryTime := galleryTime g - 1\<rparr>"
  have ok1: "ledger_ok ?g1" using assms(1) by (simp add: ledger_ok_def)
  from assms(2) have "g' = ?g1 \<or> nextGalleryItem c ?g1 = Inr g'"
    by (auto simp: galleryTick_def Let_def split: if_splits)
  then show ?thesis using ok1 ledger_ok_nextGalleryItem by blast
qed

lemma artworks_calculateScores:
  "map id_artwork (artworks (calculateScores r g)) = map id_artwork (artworks g)"
  by (simp add: calculateScores_def Let_def comp_def split: option.splits)

lemma votes_calculateScores: "votes (calculateScores r g) = votes g"
  by (simp add: calculateScores_def Let_def split: option.splits)

lemma ledger_ok_ids:
  "votes g' = votes g \<Longrightarrow> map id_artwork (artworks g') = map id_artwork (artworks g) \<Longrightarrow>
   ledger_ok g \<Longrightarrow> ledger_ok g'"
proof -
  assume v: "votes g' = votes g" and m: "map id_artwork (artworks g') = map id_artwork (artworks g)"
     and ok: "ledger_ok g"
  from m have s: "id_artwork ` set (artworks g') = id_artwork ` set (artworks g)"
    by (metis set_map)
  from m have l: "length (artworks g') = length (artworks g)" by (metis length_map)
  have "\<forall>a\<in>set (artworks g'). 1 \<le> id_artwork a \<and> id_artwork a \<le> int (length (artworks g'))"
  proof
    fix a assume "a \<in> set (artworks g')"
    then have "id_artwork a \<in> id_artwork ` set (artworks g)" using s by blast
    then show "1 \<le> id_artwork a \<and> id_artwork a \<le> int (length (artworks g'))"
      using ok l by (auto simp: ledger_ok_def)
  qed
  then show ?thesis using ok v m s by (simp add: ledger_ok_def)
qed

lemma ledger_ok_runArtEvaluation_resume:
  assumes "ledger_ok g" shows "ledger_ok (runArtEvaluation_resume r g)"
proof (rule ledger_ok_ids[OF _ _ assms])
  show "votes (runArtEvaluation_resume r g) = votes g"
    by (simp add: runArtEvaluation_resume_def votes_calculateScores)
  show "map id_artwork (artworks (runArtEvaluation_resume r g)) = map id_artwork (artworks g)"
    by (simp add: runArtEvaluation_resume_def artworks_calculateScores)
qed

lemma ledger_ok_step:
  assumes "ledger_ok g" and "enabled e g" and "step c e g = Inr g'"
  shows "ledger_ok g'"
proof (cases e)
  case (AddPlayer i n)
  with assms show ?thesis by (auto simp: ledger_ok_addPlayer)
next
  case (RemovePlayer i)
  with assms show ?thesis by (auto simp: ledger_ok_removePlayer)
next
  case StartGame
  with assms show ?thesis by (auto simp: ledger_ok_startGame)
next
  case ResetGame
  with assms show ?thesis by (auto simp: ledger_ok_resetGame)
next
  case (PlayerReady i)
  with assms show ?thesis by (auto simp: ledger_ok_handlePlayerReady)
next
  case (PromptSubmission i pr)
  with assms show ?thesis by (auto simp: ledger_ok_handlePromptSubmission)
next
  case (CastVote i yes)
  with assms show ?thesis by (auto intro: ledger_ok_handleVote)
next
  case NextRound
  with assms show ?thesis by (auto simp: ledger_ok_nextRound)
next
  case (RoundDataArrived rd k)
  with assms show ?thesis by (auto intro: ledger_ok_startNewRound_resume)
next
  case (ImagesArrived urls perm)
  with assms show ?thesis by (auto simp: ledger_ok_generateAllArtworks_resume)
next
  case TimerTick
  with assms show ?thesis by (auto intro: ledger_ok_galleryTick)
next
  case (RankingsArrived r)
  with assms show ?thesis by (auto simp: ledger_ok_runArtEvaluation_resume)
qed

lemma reachable_ledger_ok: "reachable c g \<Longrightarrow> ledger_ok g"
  by (induction rule: reachable.induct) (auto simp: ledger_ok_newGame intro: ledger_ok_step)

lemma run_reachable: "reachable c g \<Longrightarrow> run c es g = Some g' \<Longrightarrow> reachable c g'"
proof (induction es arbitrary: g)
  case Nil
  then show ?case by simp
next
  case (Cons e es)
  from Cons.prems(2) obtain g1 where e: "enabled e g" and s: "step c e g = Inr g1"
      and r: "run c es g1 = Some g'"
    by (auto split: if_splits sum.splits)
  from Cons.prems(1) e s have "reachable c g1" by (rule reachable_step)
  then show ?case using r by (rule Cons.IH)
qed

section \<open>Evaluating the example sessions\<close>

lemmas game_defs =
  newGame_def addPlayer_def removePlayer_def startGame_def resetGame_def
  startNewRound_call_def startNewRound_resume_def handlePlayerReady_def
  handlePromptSubmission_def generateAllArtworks_call_def generateAllArtworks_resume_def
  is_shuffle_def shuffleArray_def startGalleryTimer_def handleVote_def hasVoted_def
  nextGalleryItem_def fillNoVotes_def runArtEvaluation_call_def runArtEvaluation_resume_def
  galleryTick_def calculateScores_def dodgerPoints_def buildScoreMap_def applyRanking_def
  initScoreMap_def scoreToAdd_def pointsByRank_def nextRound_def Let_def

lemma run_before_timeout: "run c2 timeout_trace (newGame c2 ''ABCD'') = Some before_timeout"
  unfolding before_timeout_def
  by (simp add: timeout_trace_def round_to_gallery_def c2_def rd0_def game_defs)

lemmas example_defs =
  c2_def rd0_def round_to_gallery_def round_to_scoring_def rankings12_def full_round_def
  early_leave_def dodger_leaves_def bystander_leaves_def

lemma run_full_round: "run c2 full_round (newGame c2 ''ABCD'') = Some reveal_state"
  unfolding reveal_state_def by (simp add: example_defs game_defs)

lemma run_lobby: "run c2 [AddPlayer ''a'' ''Ann''] (newGame c2 ''ABCD'') = Some lobby_state"
  unfolding lobby_state_def by (simp add: example_defs game_defs)

lemma run_early_leave: "run c2 early_leave (newGame c2 ''ABCD'') = Some briefing_state"
  unfolding briefing_state_def by (simp add: example_defs game_defs)

lemma run_round_to_scoring: "run c2 round_to_scoring (newGame c2 ''ABCD'') = Some scoring_state"
  unfolding scoring_state_def by (simp add: example_defs game_defs)

section \<open>C3: the votes ledger\<close>

lemma votes_on_append: "votes_on (vs @ ws) pid aid = votes_on vs pid aid @ votes_on ws pid aid"
  by (simp add: votes_on_def)

lemma nextGalleryItem_votes:
  "nextGalleryItem c g = Inr g' \<Longrightarrow>
   galleryIndex g < length (artworks g) \<and> players g' = players g
   \<and> votes g' = fillNoVotes (currentArtworkId g) (players g) (votes g)"
  by (auto simp: nextGalleryItem_def Let_def startGalleryTimer_def runArtEvaluation_call_def
                 currentArtworkId_def split: if_splits)

lemma fillNoVotes_votes_on:
  assumes u: "votes_unique vs" and p: "p \<in> set ps"
  shows "votes_on (fillNoVotes aid ps vs) (id_player p) aid =
           (if hasVoted vs (id_player p) aid then votes_on vs (id_player p) aid
            else [\<lparr>voterId = id_player p, artworkId = aid, isYes = False\<rparr>])"
proof -
  let ?pid = "id_player p"
  obtain synth where s: "fillNoVotes aid ps vs = vs @ synth"
    and n: "\<forall>v\<in>set synth. \<not> isYes v \<and> artworkId v = aid \<and> \<not> hasVoted vs (voterId v) aid"
    using fillNoVotes_append[of aid ps vs] by blast
  have one: "length (votes_on (vs @ synth) ?pid aid) = 1"
    using votes_on_unique[OF fillNoVotes_unique[OF u], of aid ps ?pid aid]
          fillNoVotes_hasVoted[OF p, of aid vs] s by simp
  show ?thesis
  proof (cases "hasVoted vs ?pid aid")
    case True
    then have "length (votes_on vs ?pid aid) = 1" using votes_on_unique[OF u] by simp
    with one have "votes_on synth ?pid aid = []" by (simp add: votes_on_append)
    then show ?thesis using True s by (simp add: votes_on_append)
  next
    case False
    then have e: "votes_on vs ?pid aid = []" using votes_on_unique[OF u, of ?pid aid] by simp
    with one obtain v where v: "votes_on synth ?pid aid = [v]"
      by (cases "votes_on synth ?pid aid") (auto simp: votes_on_append)
    then have "v \<in> set (votes_on synth ?pid aid)" by simp
    then have "v \<in> set synth" "voterId v = ?pid" "artworkId v = aid"
      by (auto simp: votes_on_def)
    with n have "v = \<lparr>voterId = ?pid, artworkId = aid, isYes = False\<rparr>" by auto
    with v e s False show ?thesis by (simp add: votes_on_append)
  qed
qed

lemma advances_step:
  assumes "advances e g" and "step c e g = Inr g'"
  shows "\<exists>g1. nextGalleryItem c g1 = Inr g' \<and> votes g1 = explicit_votes e g
              \<and> players g1 = players g \<and> artworks g1 = artworks g \<and> galleryIndex g1 = galleryIndex g"
proof (cases e)
  case TimerTick
  with assms show ?thesis
    by (auto simp: galleryTick_def Let_def
             intro!: exI[of _ "g\<lparr>galleryTime := galleryTime g - 1\<rparr>"])
next
  case (CastVote i yes)
  with assms show ?thesis
    by (auto simp: handleVote_def Let_def currentArtworkId_def
             intro!: exI[of _ "g\<lparr>votes := votes g @ [\<lparr>voterId = i, artworkId = id_artwork (artworks g ! galleryIndex g), isYes = yes\<rparr>]\<rparr>"])
qed (use assms in auto)

lemma explicit_votes_unique:
  "votes_unique (votes g) \<Longrightarrow> advances e g \<Longrightarrow> votes_unique (explicit_votes e g)"
  by (cases e) (auto simp: votes_unique_snoc)

text \<open>
  C3.  In every reachable session state each (voter, artwork) pair occurs at most once
  in the votes ledger.  When an event makes the gallery cursor advance past the current
  artwork (the vote that completes unanimity, or the tick at which the countdown runs
  out), every player of the roster then has exactly one vote on that artwork: the
  explicit vote if there is one, otherwise a synthesized \<open>no\<close> vote.
\<close>

theorem votes_once_per_pair:
  assumes "reachable c g"
  shows "votes_unique (votes g) \<and>
         (\<forall>e g'. enabled e g \<and> advances e g \<and> step c e g = Inr g' \<longrightarrow>
            (\<forall>p\<in>set (players g').
               length (votes_on (votes g') (id_player p) (currentArtworkId g)) = 1
               \<and> votes_on (votes g') (id_player p) (currentArtworkId g) =
                   (if hasVoted (explicit_votes e g) (id_player p) (currentArtworkId g)
                    then votes_on (explicit_votes e g) (id_player p) (currentArtworkId g)
                    else [\<lparr>voterId = id_player p, artworkId = currentArtworkId g, isYes = False\<rparr>])))"
proof (intro conjI allI impI ballI)
  show u: "votes_unique (votes g)"
    using reachable_ledger_ok[OF assms] by (simp add: ledger_ok_def)
  fix e g' p
  assume a: "enabled e g \<and> advances e g \<and> step c e g = Inr g'" and p: "p \<in> set (players g')"
  then obtain g1 where g1: "nextGalleryItem c g1 = Inr g'" "votes g1 = explicit_votes e g"
      "players g1 = players g" "artworks g1 = artworks g" "galleryIndex g1 = galleryIndex g"
    using advances_step by blast
  have ue: "votes_unique (explicit_votes e g)" using u a by (simp add: explicit_votes_unique)
  have cur: "currentArtworkId g1 = currentArtworkId g" using g1 by (simp add: currentArtworkId_def)
  from nextGalleryItem_votes[OF g1(1)] have pl: "players g' = players g"
    and vs: "votes g' = fillNoVotes (currentArtworkId g) (players g) (explicit_votes e g)"
    using g1 cur by simp_all
  from p pl have pin: "p \<in> set (players g)" by simp
  show eq: "votes_on (votes g') (id_player p) (currentArtworkId g) =
          (if hasVoted (explicit_votes e g) (id_player p) (currentArtworkId g)
           then votes_on (explicit_votes e g) (id_player p) (currentArtworkId g)
           else [\<lparr>voterId = id_player p, artworkId = currentArtworkId g, isYes = False\<rparr>])"
    unfolding vs by (rule fillNoVotes_votes_on[OF ue pin])
  show "length (votes_on (votes g') (id_player p) (currentArtworkId g)) = 1"
    unfolding vs
    using votes_on_unique[OF fillNoVotes_unique[OF ue]] fillNoVotes_hasVoted[OF pin] by simp
qed

text \<open>
  A session of two players with a countdown of two ticks: Bob approves the artwork on
  display, Ann does not vote, and the second tick advances the cursor.
\<close>

theorem votes_once_per_pair_witness:
  "reachable c2 before_timeout \<and> enabled TimerTick before_timeout \<and> advances TimerTick before_timeout
   \<and> step c2 TimerTick before_timeout = Inr after_timeout
   \<and> votes_unique (votes before_timeout)
   \<and> currentArtworkId before_timeout = 2
   \<and> map id_player (players after_timeout) = [''a'', ''b'']
   \<and> votes_on (votes after_timeout) ''a'' 2 = [\<lparr>voterId = ''a'', artworkId = 2, isYes = False\<rparr>]
   \<and> votes_on (votes after_timeout) ''b'' 2 = [\<lparr>voterId = ''b'', artworkId = 2, isYes = True\<rparr>]"
proof -
  have r: "reachable c2 before_timeout"
    using run_reachable[OF reachable_new run_before_timeout] .
  have e: "enabled TimerTick before_timeout" "advances TimerTick before_timeout"
    unfolding before_timeout_def
    by (simp_all add: timeout_trace_def round_to_gallery_def c2_def rd0_def game_defs)
  have s: "step c2 TimerTick before_timeout = Inr after_timeout"
    unfolding before_timeout_def after_timeout_def
    by (simp add: timeout_trace_def round_to_gallery_def c2_def rd0_def game_defs)
  have cur: "currentArtworkId before_timeout = 2"
    unfolding before_timeout_def
    by (simp add: timeout_trace_def round_to_gallery_def c2_def rd0_def game_defs currentArtworkId_def)
  have pl: "map id_player (players after_timeout) = [''a'', ''b'']"
    unfolding after_timeout_def
    by (simp add: timeout_trace_def round_to_gallery_def c2_def rd0_def game_defs)
  have ex: "explicit_votes TimerTick before_timeout = [\<lparr>voterId = ''b'', artworkId = 2, isYes = True\<rparr>]"
    unfolding before_timeout_def
    by (simp add: timeout_trace_def round_to_gallery_def c2_def rd0_def game_defs)
  have pa: "\<exists>p\<in>set (players after_timeout). id_player p = ''a''"
    and pb: "\<exists>p\<in>set (players after_timeout). id_player p = ''b''"
    unfolding after_timeout_def
    by (simp_all add: timeout_trace_def round_to_gallery_def c2_def rd0_def game_defs)
  from votes_once_per_pair[OF r] e s
  have u: "votes_unique (votes before_timeout)"
    and all: "\<forall>p\<in>set (players after_timeout).
               votes_on (votes after_timeout) (id_player p) 2 =
                   (if hasVoted (explicit_votes TimerTick before_timeout) (id_player p) 2
                    then votes_on (explicit_votes TimerTick before_timeout) (id_player p) 2
                    else [\<lparr>voterId = id_player p, artworkId = 2, isYes = False\<rparr>])"
    unfolding cur[symmetric] by blast+
  from all pa have a: "votes_on (votes after_timeout) ''a'' 2 = [\<lparr>voterId = ''a'', artworkId = 2, isYes = False\<rparr>]"
    unfolding ex by (auto simp: hasVoted_def votes_on_def)
  from all pb have b: "votes_on (votes after_timeout) ''b'' 2 = [\<lparr>voterId = ''b'', artworkId = 2, isYes = True\<rparr>]"
    unfolding ex by (auto simp: hasVoted_def votes_on_def)
  show ?thesis using r e s u cur pl a b by simp
qed

section \<open>C9: a second submission changes nothing\<close>

lemma handlePromptSubmission_submitted:
  "find (\<lambda>p. id_player p = pid) (players g) = Some p \<Longrightarrow> promptSubmitted p \<Longrightarrow>
   handlePromptSubmission pid pr g = g"
  by (simp add: handlePromptSubmission_def)

lemma handlePromptSubmission_twice:
  "handlePromptSubmission pid pr' (handlePromptSubmission pid pr g) = handlePromptSubmission pid pr g"
proof (cases "find (\<lambda>p. id_player p = pid) (players g)")
  case None
  then show ?thesis by (simp add: handlePromptSubmission_def)
next
  case (Some player)
  show ?thesis
  proof (cases "promptSubmitted player")
    case True
    with Some show ?thesis by (simp add: handlePromptSubmission_def)
  next
    case False
    let ?ps = "update_first (\<lambda>p. id_player p = pid) (\<lambda>p. p\<lparr>promptSubmitted := True\<rparr>) (players g)"
    have p: "players (handlePromptSubmission pid pr g) = ?ps"
      using Some False by (simp add: handlePromptSubmission_def Let_def generateAllArtworks_call_def)
    have "id_player (player\<lparr>promptSubmitted := True\<rparr>) = pid"
      using find_Some_mem[OF Some] by simp
    then have "find (\<lambda>p. id_player p = pid) ?ps = Some (player\<lparr>promptSubmitted := True\<rparr>)"
      using find_update_first[OF Some, of "\<lambda>p. p\<lparr>promptSubmitted := True\<rparr>"] by simp
    then show ?thesis
      using handlePromptSubmission_submitted[of pid "handlePromptSubmission pid pr g"] p by simp
  qed
qed

text \<open>
  C9.  Submitting an instruction is idempotent for a player in a round: when the player
  found under the id has already submitted, \<open>handlePromptSubmission\<close> returns the session
  as it was (artworks, submission flags and every other field), and so a second call after
  any first call changes nothing.
\<close>

theorem submission_idempotent:
  "(\<forall>p. find (\<lambda>p. id_player p = pid) (players g) = Some p \<and> promptSubmitted p \<longrightarrow>
        handlePromptSubmission pid pr g = g)
   \<and> handlePromptSubmission pid pr' (handlePromptSubmission pid pr g) = handlePromptSubmission pid pr g"
  using handlePromptSubmission_submitted handlePromptSubmission_twice by blast

text \<open>Ann has submitted in the round that \<open>reveal_state\<close> ends; a further submission is ignored.\<close>

theorem submission_idempotent_witness:
  "find (\<lambda>p. id_player p = ''a'') (players reveal_state)
     = Some \<lparr>id_player = ''a'', name = ''Ann'', role = Dodger, score = 9, promptSubmitted = True\<rparr>
   \<and> handlePromptSubmission ''a'' ''another prompt'' reveal_state = reveal_state"
proof -
  have f: "find (\<lambda>p. id_player p = ''a'') (players reveal_state)
     = Some \<lparr>id_player = ''a'', name = ''Ann'', role = Dodger, score = 9, promptSubmitted = True\<rparr>"
    unfolding reveal_state_def by (simp add: example_defs game_defs)
  show ?thesis
    using f submission_idempotent[of "''a''" reveal_state "''another prompt''"] by simp
qed

section \<open>C10: the snapshot's roundPoints and the scoring pass's dodgerPoints\<close>

lemma find_by_id:
  assumes "distinct (map id_artwork arts)"
  shows "(case find (\<lambda>a. id_artwork a = k) arts of None \<Rightarrow> False | Some a \<Rightarrow> Q a)
         \<longleftrightarrow> (\<exists>a\<in>set arts. id_artwork a = k \<and> Q a)"
proof (cases "find (\<lambda>a. id_artwork a = k) arts")
  case None
  then have "\<forall>a\<in>set arts. id_artwork a \<noteq> k" by (simp add: find_None_iff_all)
  with None show ?thesis by simp
next
  case (Some a)
  then have m: "a \<in> set arts" "id_artwork a = k" using find_Some_mem[OF Some] by auto
  have u: "\<forall>a'\<in>set arts. id_artwork a' = k \<longrightarrow> a' = a"
    using assms m distinct_map_eq[of id_artwork arts] by blast
  have "Q a \<longleftrightarrow> (\<exists>a'\<in>set arts. id_artwork a' = k \<and> Q a')"
    using m u by blast
  then show ?thesis by (simp add: Some)
qed

lemma dodgerPoints_count:
  "dodgerPoints g =
     int (length (filter (\<lambda>v. isYes v \<and> (case find (\<lambda>art. id_artwork art = artworkId v) (artworks g)
                                            of None \<Rightarrow> False | Some a \<Rightarrow> \<not> isDodger a))
                         (votes g)))"
  unfolding dodgerPoints_def Let_def by (simp add: count_foldl)

lemma dodgerPoints_spec:
  assumes "distinct (map id_artwork (artworks g))"
  shows "dodgerPoints g = spec_deceptionPoints g"
  unfolding dodgerPoints_count spec_deceptionPoints_def
  by (simp add: find_by_id[OF assms] list_ex_iff)

lemma roundPoints_dodgerPoints:
  assumes "ledger_ok g"
  shows "roundPoints (getSerializableState g) = dodgerPoints g"
proof -
  have ne: "find (\<lambda>a. id_artwork a = artworkId v) (artworks g) \<noteq> None" if "v \<in> set (votes g)" for v
  proof -
    from assms that have "artworkId v \<in> id_artwork ` set (artworks g)" by (simp add: ledger_ok_def)
    then obtain a where "a \<in> set (artworks g)" "id_artwork a = artworkId v" by auto
    then show ?thesis by (auto simp: find_None_iff_all)
  qed
  have "filter (\<lambda>v. isYes v \<and> \<not> (case find (\<lambda>a. id_artwork a = artworkId v) (artworks g) of
                               None \<Rightarrow> False | Some a \<Rightarrow> isDodger a)) (votes g)
        = filter (\<lambda>v. isYes v \<and> (case find (\<lambda>art. id_artwork art = artworkId v) (artworks g)
                                            of None \<Rightarrow> False | Some a \<Rightarrow> \<not> isDodger a)) (votes g)"
  proof (rule filter_cong[OF refl])
    fix v assume "v \<in> set (votes g)"
    then obtain a where "find (\<lambda>a. id_artwork a = artworkId v) (artworks g) = Some a"
      using ne by blast
    then show "(isYes v \<and> \<not> (case find (\<lambda>a. id_artwork a = artworkId v) (artworks g) of
                               None \<Rightarrow> False | Some a \<Rightarrow> isDodger a))
        = (isYes v \<and> (case find (\<lambda>art. id_artwork art = artworkId v) (artworks g)
                                            of None \<Rightarrow> False | Some a \<Rightarrow> \<not> isDodger a))"
      by simp
  qed
  then show ?thesis by (simp add: getSerializableState_def dodgerPoints_count)
qed

text \<open>
  C10.  In every reachable session state the \<open>roundPoints\<close> field of the snapshot of
  \<open>getSerializableState\<close> equals the deception points that the loop of \<open>calculateScores\<close>
  counts over the same state, and both are the number of approving votes whose target
  artwork exists and is not the deviator's.  (The snapshot's filter also counts an
  approving vote whose artwork is missing; in a reachable state every vote has its artwork.)
\<close>

theorem roundPoints_agrees:
  assumes "reachable c g"
  shows "roundPoints (getSerializableState g) = dodgerPoints g
         \<and> dodgerPoints g = spec_deceptionPoints g"
  using reachable_ledger_ok[OF assms] roundPoints_dodgerPoints dodgerPoints_spec
  by (simp add: ledger_ok_def)

text \<open>At the end of the example round both counts are 2.\<close>

theorem roundPoints_agrees_witness:
  "reachable c2 reveal_state \<and> roundPoints (getSerializableState reveal_state) = 2
   \<and> dodgerPoints reveal_state = 2 \<and> spec_deceptionPoints reveal_state = 2"
proof -
  have r: "reachable c2 reveal_state"
    using run_reachable[OF reachable_new run_full_round] .
  have "spec_deceptionPoints reveal_state = 2"
    unfolding reveal_state_def by (simp add: example_defs game_defs spec_deceptionPoints_def)
  then show ?thesis using r roundPoints_agrees[OF r] by simp
qed

text \<open>
  A vote on an artwork that is not in the list, which no reachable state has, would be
  counted by the snapshot and not by the scoring pass.
\<close>

lemma roundPoints_missing_artwork:
  "roundPoints (getSerializableState
      ((newGame c2 ''ABCD'')\<lparr>votes := [\<lparr>voterId = ''a'', artworkId = 7, isYes = True\<rparr>]\<rparr>)) = 1
   \<and> dodgerPoints ((newGame c2 ''ABCD'')\<lparr>votes := [\<lparr>voterId = ''a'', artworkId = 7, isYes = True\<rparr>]\<rparr>) = 0"
  by (simp add: getSerializableState_def dodgerPoints_def newGame_def)

section \<open>C1: actions outside their phase\<close>

text \<open>\<open>startGame\<close> and \<open>nextRound\<close> test the phase first and return at once in another one.\<close>

lemma startGame_other_phase: "state g \<noteq> LOBBY \<Longrightarrow> startGame g = g"
  by (simp add: startGame_def)

lemma nextRound_other_phase: "state g \<noteq> REVEAL \<Longrightarrow> nextRound c g = g"
  by (simp add: nextRound_def)

text \<open>
  C1.  The claim is that every participant action outside its phase leaves the session
  unchanged and raises nothing.  \<open>handlePlayerReady\<close>, \<open>handlePromptSubmission\<close>,
  \<open>handleVote\<close> and \<open>resetGame\<close> have no test of the phase.  In the lobby of a room with
  one player: a ready signal moves the session to \<open>PROMPTING\<close>, a submission stores an
  artwork and moves it to \<open>GENERATING\<close>, and a vote throws (there is no artwork under the
  cursor).  In \<open>REVEAL\<close>, \<open>resetGame\<close> returns the session to the lobby with the scores
  cleared.
\<close>

theorem actions_without_phase_guard:
  "state lobby_state = LOBBY
   \<and> state (handlePlayerReady ''a'' lobby_state) = PROMPTING
   \<and> handleVote c2 ''a'' True lobby_state = Inl TypeError
   \<and> state (handlePromptSubmission ''a'' ''a tree'' lobby_state) = GENERATING
   \<and> length (artworks (handlePromptSubmission ''a'' ''a tree'' lobby_state)) = 1
   \<and> state reveal_state = REVEAL
   \<and> state (resetGame reveal_state) = LOBBY
   \<and> map score (players (resetGame reveal_state)) = [0, 0]"
  unfolding lobby_state_def reveal_state_def
  by (simp add: example_defs game_defs)

section \<open>C6: advancing the round\<close>

lemma nextRound_Reveal:
  "state g = REVEAL \<Longrightarrow>
   nextRound c g =
     (if currentRound g < TOTAL_ROUNDS c
      then g\<lparr>currentRound := currentRound g + 1, state := ROUND_STARTING,
             awaitingRoundData := awaitingRoundData g + 1\<rparr>
      else g\<lparr>state := GAME_OVER\<rparr>)"
  by (simp add: nextRound_def startNewRound_call_def)

text \<open>
  C6.  The claim is that the advance action is gated on the host.  The handlers of
  \<open>startGame\<close> and \<open>playAgain\<close> compare the socket with the first player, and a call from
  Bob, who is not the host, changes nothing; the handler of \<open>nextRound\<close> makes no such
  comparison, and Bob's call in \<open>REVEAL\<close> starts round 2.
\<close>

theorem nextRound_not_host_gated:
  "map id_player (players reveal_state) = [''a'', ''b'']
   \<and> state reveal_state = REVEAL \<and> currentRound reveal_state = 1
   \<and> on_startGame ''b'' (Some lobby_state) = Inr (Some lobby_state)
   \<and> on_playAgain ''b'' (Some reveal_state) = Inr (Some reveal_state)
   \<and> on_nextRound c2 ''b'' (Some reveal_state)
       = Inr (Some (reveal_state\<lparr>currentRound := 2, state := ROUND_STARTING, awaitingRoundData := 1\<rparr>))"
  unfolding lobby_state_def reveal_state_def
  by (simp add: example_defs game_defs on_nextRound_def on_startGame_def on_playAgain_def)

section \<open>C5: the readiness barrier\<close>

text \<open>
  C5 as stated fails.  Ann signals readiness and leaves; \<open>removePlayer\<close> keeps her id in
  the ready set.  Bob's signal then makes the set as large as the roster, and the session
  moves to \<open>PROMPTING\<close> although Cy, a current player, has not signalled.
\<close>

theorem ready_barrier_counterexample:
  "state briefing_state = BRIEFING
   \<and> state (handlePlayerReady ''b'' briefing_state) = PROMPTING
   \<and> card (readyPlayers (handlePlayerReady ''b'' briefing_state))
       = length (players (handlePlayerReady ''b'' briefing_state))
   \<and> map id_player (players (handlePlayerReady ''b'' briefing_state)) = [''b'', ''c'']
   \<and> ''c'' \<notin> readyPlayers (handlePlayerReady ''b'' briefing_state)"
  unfolding briefing_state_def
  by (simp add: example_defs game_defs)

text \<open>
  C5, amended.  \<open>handlePlayerReady\<close> in \<open>BRIEFING\<close> adds the caller to the ready set and
  moves the session to \<open>PROMPTING\<close> exactly when the set is then as large as the roster.
  When the ids of the roster are pairwise distinct and every id in the ready set, the
  caller's included, is the id of a current player, this is exactly when every current
  player is in the ready set.
\<close>

theorem ready_barrier:
  assumes "state g = BRIEFING"
      and "distinct (map id_player (players g))"
      and "insert pid (readyPlayers g) \<subseteq> id_player ` set (players g)"
  shows "readyPlayers (handlePlayerReady pid g) = insert pid (readyPlayers g)
         \<and> players (handlePlayerReady pid g) = players g
         \<and> (state (handlePlayerReady pid g) = PROMPTING
              \<longleftrightarrow> card (readyPlayers (handlePlayerReady pid g)) = length (players g))
         \<and> (state (handlePlayerReady pid g) = PROMPTING
              \<longleftrightarrow> (\<forall>p\<in>set (players g). id_player p \<in> readyPlayers (handlePlayerReady pid g)))"
proof -
  let ?R = "insert pid (readyPlayers g)"
  let ?I = "id_player ` set (players g)"
  have r: "readyPlayers (handlePlayerReady pid g) = ?R"
    and p: "players (handlePlayerReady pid g) = players g"
    by (simp_all add: handlePlayerReady_def Let_def)
  have s: "state (handlePlayerReady pid g) = PROMPTING \<longleftrightarrow> card ?R = length (players g)"
    using assms(1) by (simp add: handlePlayerReady_def Let_def)
  have cI: "card ?I = length (players g)"
    using assms(2) distinct_card[of "map id_player (players g)"] by simp
  have "card ?R = length (players g) \<longleftrightarrow> ?I \<subseteq> ?R"
  proof
    assume "card ?R = length (players g)"
    then have "?R = ?I" using assms(3) cI card_subset_eq[of ?I ?R] by simp
    then show "?I \<subseteq> ?R" by simp
  next
    assume "?I \<subseteq> ?R"
    then have "?R = ?I" using assms(3) by blast
    then show "card ?R = length (players g)" using cI by simp
  qed
  then have a: "state (handlePlayerReady pid g) = PROMPTING
              \<longleftrightarrow> (\<forall>p\<in>set (players g). id_player p \<in> ?R)"
    using s by blast
  show ?thesis unfolding r p using s a by blast
qed

text \<open>Ann and Bob in \<open>BRIEFING\<close>, Ann ready: Bob's signal opens the barrier.\<close>

theorem ready_barrier_witness:
  "state briefing_two = BRIEFING
   \<and> distinct (map id_player (players briefing_two))
   \<and> insert ''b'' (readyPlayers briefing_two) \<subseteq> id_player ` set (players briefing_two)
   \<and> state (handlePlayerReady ''b'' briefing_two) = PROMPTING
   \<and> id_player ` set (players briefing_two) \<subseteq> readyPlayers (handlePlayerReady ''b'' briefing_two)"
proof -
  have h1: "state briefing_two = BRIEFING"
    and h2: "distinct (map id_player (players briefing_two))"
    and h3: "insert ''b'' (readyPlayers briefing_two) \<subseteq> id_player ` set (players briefing_two)"
    and o: "state (handlePlayerReady ''b'' briefing_two) = PROMPTING"
    unfolding briefing_two_def by (simp_all add: example_defs game_defs)
  show ?thesis using h1 h2 h3 o ready_barrier[OF h1 h2 h3] by blast
qed

section \<open>C2: what the scoring pass adds\<close>

lemma foldl_init_map:
  "foldl (\<lambda>m art. m(id_artwork art \<mapsto> z)) m arts k =
     (if k \<in> id_artwork ` set arts then Some z else m k)"
  by (induction arts arbitrary: m) auto

lemma initScoreMap_apply:
  "initScoreMap arts k =
     (if k \<in> id_artwork ` set arts then Some \<lparr>quality = 0, originality = 0\<rparr> else None)"
  by (simp add: initScoreMap_def foldl_init_map)

lemma applyRanking_rankStep:
  "applyRanking setter ranking m0 = foldl (rankStep setter) m0 (zip ranking [0..<length ranking])"
  unfolding applyRanking_def rankStep_def by (rule arg_cong[where f="\<lambda>f. foldl f _ _"]) auto

lemma rankStep_late: "\<forall>z\<in>set zs. 3 \<le> snd z \<Longrightarrow> foldl (rankStep setter) m zs = m"
  by (induction zs arbitrary: m) (auto simp: rankStep_def pointsByRank_def)

lemma zip_upt_late: "\<forall>z\<in>set (zip xs [k..<n]). k \<le> snd z"
  by (auto dest!: set_zip_rightD)

lemma applyRanking_cases:
  "applyRanking setter [] m = m"
  "applyRanking setter [a] m = rankStep setter m (a, 0)"
  "applyRanking setter [a, b] m = rankStep setter (rankStep setter m (a, 0)) (b, 1)"
  "applyRanking setter (a # b # c # rest) m =
     rankStep setter (rankStep setter (rankStep setter m (a, 0)) (b, 1)) (c, 2)"
proof -
  show "applyRanking setter [] m = m" by (simp add: applyRanking_rankStep)
  show "applyRanking setter [a] m = rankStep setter m (a, 0)" by (simp add: applyRanking_rankStep)
  show "applyRanking setter [a, b] m = rankStep setter (rankStep setter m (a, 0)) (b, 1)"
    by (simp add: applyRanking_rankStep upt_conv_Cons del: upt_Suc)
  have "[0..<Suc (Suc (Suc (length rest)))]
          = 0 # Suc 0 # Suc (Suc 0) # [Suc (Suc (Suc 0))..<Suc (Suc (Suc (length rest)))]"
    by (simp add: upt_conv_Cons del: upt_Suc)
  then have u: "[0..<length (a # b # c # rest)] = 0 # 1 # 2 # [3..<3 + length rest]"
    by (simp add: eval_nat_numeral)
  have "foldl (rankStep setter) m (zip (a # b # c # rest) (0 # 1 # 2 # [3..<3 + length rest]))
        = foldl (rankStep setter) (rankStep setter (rankStep setter (rankStep setter m (a, 0)) (b, 1)) (c, 2))
            (zip rest [3..<3 + length rest])"
    by simp
  also have "\<dots> = rankStep setter (rankStep setter (rankStep setter m (a, 0)) (b, 1)) (c, 2)"
    by (rule rankStep_late) (rule zip_upt_late)
  finally show "applyRanking setter (a # b # c # rest) m =
     rankStep setter (rankStep setter (rankStep setter m (a, 0)) (b, 1)) (c, 2)"
    unfolding applyRanking_rankStep u .
qed

lemma list_shape:
  obtains "xs = []" | a where "xs = [a]" | a b where "xs = [a, b]"
        | a b c rest where "xs = a # b # c # rest"
proof (cases xs)
  case Nil
  then show ?thesis using that by simp
next
  case (Cons a ys)
  show ?thesis
  proof (cases ys)
    case Nil
    with Cons show ?thesis using that by simp
  next
    case (Cons b zs)
    note ys = this
    show ?thesis
    proof (cases zs)
      case Nil
      with ys \<open>xs = a # ys\<close> show ?thesis using that by simp
    next
      case (Cons c rest)
      with ys \<open>xs = a # ys\<close> show ?thesis using that by simp
    qed
  qed
qed

lemma applyRanking_apply:
  assumes "distinct (take 3 ranking)"
  shows "applyRanking setter ranking m k =
           (case m k of None \<Rightarrow> None
            | Some b \<Rightarrow> Some (if spec_rankBonus ranking k = 0 then b
                               else setter b (spec_rankBonus ranking k)))"
proof (cases ranking rule: list_shape)
  case 1
  then show ?thesis by (simp add: applyRanking_cases spec_rankBonus_def split: option.splits)
next
  case (2 a)
  then show ?thesis
    by (auto simp: applyRanking_cases spec_rankBonus_def rankStep_def pointsByRank_def
             split: option.splits)
next
  case (3 a b)
  then show ?thesis using assms
    by (auto simp: applyRanking_cases spec_rankBonus_def rankStep_def pointsByRank_def
             split: option.splits)
next
  case (4 a b c rest)
  then show ?thesis using assms
    by (auto simp: applyRanking_cases spec_rankBonus_def rankStep_def pointsByRank_def
             split: option.splits)
qed

lemma buildScoreMap_apply:
  assumes "distinct (take 3 (qualityRanking r))" and "distinct (take 3 (originalityRanking r))"
      and "k \<in> id_artwork ` set arts"
  shows "buildScoreMap r arts k =
           Some \<lparr>quality = spec_rankBonus (qualityRanking r) k,
                 originality = spec_rankBonus (originalityRanking r) k\<rparr>"
  using assms(3)
  by (simp add: buildScoreMap_def applyRanking_apply[OF assms(1)] applyRanking_apply[OF assms(2)]
                initScoreMap_apply)

lemma find_vote_unique:
  assumes "votes_unique vs"
  shows "(case find (\<lambda>v. voterId v = pid \<and> artworkId v = aid) vs of None \<Rightarrow> False | Some v \<Rightarrow> isYes v)
         \<longleftrightarrow> list_ex (\<lambda>v. voterId v = pid \<and> artworkId v = aid \<and> isYes v) vs"
proof (cases "find (\<lambda>v. voterId v = pid \<and> artworkId v = aid) vs")
  case None
  then have "\<forall>v\<in>set vs. \<not> (voterId v = pid \<and> artworkId v = aid)"
    by (simp add: find_None_iff_all)
  with None show ?thesis by (auto simp: list_ex_iff)
next
  case (Some v)
  then have m: "v \<in> set vs" "voterId v = pid" "artworkId v = aid"
    using find_Some_mem[OF Some] by auto
  have u: "\<forall>w\<in>set vs. voterId w = pid \<and> artworkId w = aid \<longrightarrow> w = v"
  proof (intro ballI impI)
    fix w assume "w \<in> set vs" "voterId w = pid \<and> artworkId w = aid"
    then have "vote_key w = vote_key v" using m by (simp add: vote_key_def)
    then show "w = v"
      using assms m(1) \<open>w \<in> set vs\<close> distinct_map_eq[of vote_key vs w v]
      by (simp add: votes_unique_def)
  qed
  have "isYes v \<longleftrightarrow> (\<exists>w\<in>set vs. voterId w = pid \<and> artworkId w = aid \<and> isYes w)"
    using m u by blast
  then show ?thesis by (simp add: Some list_ex_iff)
qed

lemma scoreToAdd_spec:
  assumes ok: "ledger_ok g"
      and q: "distinct (take 3 (qualityRanking r))" and o: "distinct (take 3 (originalityRanking r))"
  shows "scoreToAdd g d (dodgerPoints g) (buildScoreMap r (artworks g)) p = spec_scoreDelta g d r p"
proof -
  have v: "(case find (\<lambda>v. voterId v = id_player p \<and> artworkId v = id_artwork d) (votes g)
              of None \<Rightarrow> False | Some v \<Rightarrow> isYes v)
           \<longleftrightarrow> list_ex (\<lambda>v. voterId v = id_player p \<and> artworkId v = id_artwork d \<and> isYes v) (votes g)"
    using ok by (intro find_vote_unique) (simp add: ledger_ok_def)
  have dp: "dodgerPoints g = spec_deceptionPoints g"
    using ok by (intro dodgerPoints_spec) (simp add: ledger_ok_def)
  show ?thesis
  proof (cases "find (\<lambda>art. playerId art = id_player p) (artworks g)")
    case None
    then show ?thesis
      unfolding scoreToAdd_def spec_scoreDelta_def Let_def v dp by simp
  next
    case (Some a)
    then have "id_artwork a \<in> id_artwork ` set (artworks g)"
      using find_Some_mem[OF Some] by simp
    from buildScoreMap_apply[OF q o this] Some show ?thesis
      unfolding scoreToAdd_def spec_scoreDelta_def Let_def v dp by simp
  qed
qed

text \<open>Without a flagged artwork the pass is skipped.\<close>

lemma calculateScores_skipped: "find isDodger (artworks g) = None \<Longrightarrow> calculateScores r g = g"
  by (simp add: calculateScores_def)

text \<open>
  C2.  In a reachable session state with a deviator's artwork, and for rankings whose first
  three entries are pairwise distinct, \<open>calculateScores\<close> adds to every player's score
  exactly: 1 if the player cast an approving vote on the deviator's artwork, plus the
  deception points if the player is the deviator, plus the 3/2/1 quality bonus and the
  3/2/1 originality bonus of the player's own artwork; it stores the two bonuses on every
  artwork, and changes nothing else.
\<close>

theorem scoring_pass:
  assumes "reachable c g"
      and "find isDodger (artworks g) = Some dodgerArtwork"
      and "distinct (take 3 (qualityRanking r))" and "distinct (take 3 (originalityRanking r))"
  shows "calculateScores r g =
           g\<lparr>players := map (\<lambda>p. p\<lparr>score := score p + spec_scoreDelta g dodgerArtwork r p\<rparr>) (players g),
             artworks := map (\<lambda>a. a\<lparr>qualityScore := Some (spec_rankBonus (qualityRanking r) (id_artwork a)),
                                     originalityScore := Some (spec_rankBonus (originalityRanking r) (id_artwork a))\<rparr>)
                             (artworks g)\<rparr>"
proof -
  have ok: "ledger_ok g" using assms(1) by (rule reachable_ledger_ok)
  have p: "map (\<lambda>p. p\<lparr>score := score p + scoreToAdd g dodgerArtwork (dodgerPoints g)
                                        (buildScoreMap r (artworks g)) p\<rparr>) (players g)
         = map (\<lambda>p. p\<lparr>score := score p + spec_scoreDelta g dodgerArtwork r p\<rparr>) (players g)"
    by (simp add: scoreToAdd_spec[OF ok assms(3) assms(4)])
  have a: "map (\<lambda>art. art\<lparr>qualityScore :=
                             Some (case buildScoreMap r (artworks g) (id_artwork art) of
                                     None \<Rightarrow> 0 | Some b \<Rightarrow> quality b),
                           originalityScore :=
                             Some (case buildScoreMap r (artworks g) (id_artwork art) of
                                     None \<Rightarrow> 0 | Some b \<Rightarrow> originality b)\<rparr>) (artworks g)
         = map (\<lambda>a. a\<lparr>qualityScore := Some (spec_rankBonus (qualityRanking r) (id_artwork a)),
                       originalityScore := Some (spec_rankBonus (originalityRanking r) (id_artwork a))\<rparr>)
               (artworks g)"
  proof (rule map_cong[OF refl])
    fix x assume "x \<in> set (artworks g)"
    then have "id_artwork x \<in> id_artwork ` set (artworks g)" by simp
    from buildScoreMap_apply[OF assms(3) assms(4) this]
    show "x\<lparr>qualityScore := Some (case buildScoreMap r (artworks g) (id_artwork x) of
                                     None \<Rightarrow> 0 | Some b \<Rightarrow> quality b),
            originalityScore := Some (case buildScoreMap r (artworks g) (id_artwork x) of
                                     None \<Rightarrow> 0 | Some b \<Rightarrow> originality b)\<rparr>
        = x\<lparr>qualityScore := Some (spec_rankBonus (qualityRanking r) (id_artwork x)),
            originalityScore := Some (spec_rankBonus (originalityRanking r) (id_artwork x))\<rparr>"
      by simp
  qed
  show ?thesis
    unfolding calculateScores_def Let_def assms(2) option.case p a ..
qed

text \<open>
  The example round when the votes are in: Ann is the deviator, both players approved both
  artworks, and Ann's artwork (id 1) is first in both rankings.
\<close>

theorem scoring_pass_witness:
  "reachable c2 scoring_state
   \<and> find isDodger (artworks scoring_state)
       = Some \<lparr>id_artwork = 1, playerId = ''a'', prompt = ''a dragon guarding a key'',
               imageUrl = Some ''img1'', isDodger = True, qualityScore = None, originalityScore = None\<rparr>
   \<and> distinct (take 3 (qualityRanking rankings12)) \<and> distinct (take 3 (originalityRanking rankings12))
   \<and> map score (players scoring_state) = [0, 0]
   \<and> map score (players (calculateScores rankings12 scoring_state)) = [9, 5]
   \<and> map qualityScore (artworks (calculateScores rankings12 scoring_state)) = [Some 2, Some 3]
   \<and> map originalityScore (artworks (calculateScores rankings12 scoring_state)) = [Some 2, Some 3]"
proof -
  let ?d = "\<lparr>id_artwork = 1, playerId = ''a'', prompt = ''a dragon guarding a key'',
               imageUrl = Some ''img1'', isDodger = True, qualityScore = None, originalityScore = None\<rparr>"
  have r: "reachable c2 scoring_state"
    using run_reachable[OF reachable_new run_round_to_scoring] .
  have d: "find isDodger (artworks scoring_state) = Some ?d"
    unfolding scoring_state_def by (simp add: example_defs game_defs)
  have q: "distinct (take 3 (qualityRanking rankings12))"
    and o: "distinct (take 3 (originalityRanking rankings12))"
    by (simp_all add: rankings12_def)
  have s0: "map score (players scoring_state) = [0, 0]"
    unfolding scoring_state_def by (simp add: example_defs game_defs)
  have e: "map (\<lambda>p. score p + spec_scoreDelta scoring_state ?d rankings12 p) (players scoring_state) = [9, 5]"
    and b1: "map (\<lambda>a. Some (spec_rankBonus (qualityRanking rankings12) (id_artwork a))) (artworks scoring_state) = [Some 2, Some 3]"
    and b2: "map (\<lambda>a. Some (spec_rankBonus (originalityRanking rankings12) (id_artwork a))) (artworks scoring_state) = [Some 2, Some 3]"
    unfolding scoring_state_def
    by (simp_all add: example_defs game_defs spec_scoreDelta_def spec_deceptionPoints_def spec_rankBonus_def)
  show ?thesis
    using r d q o s0 e b1 b2 by (simp add: scoring_pass[OF r d q o] comp_def)
qed

section \<open>C7: a bound on the score of a round\<close>











section \<open>C4: one deviator, one flagged artwork\<close>

lemma filter_single_map:
  assumes "filter (\<lambda>p. role p = Dodger) ps = [d]" and "\<And>p. role (f p) = role p"
  shows "filter (\<lambda>p. role p = Dodger) (map f ps) = [f d]"
proof -
  have "filter (\<lambda>p. role p = Dodger) (map f ps) = map f (filter (\<lambda>p. role p = Dodger) ps)"
    by (simp add: filter_map comp_def assms(2))
  then show ?thesis using assms(1) by simp
qed

lemma dodger_ok_players_map:
  assumes "dodger_ok g"
      and "\<And>p. role (f p) = role p" and "\<And>p. id_player (f p) = id_player p"
      and "\<And>p. promptSubmitted (f p) = promptSubmitted p"
      and "players g' = map f (players g)" and "dodgerId g' = dodgerId g"
      and "artworks g' = artworks g"
  shows "dodger_ok g'"
proof -
  from assms(1) obtain d where d: "dodgers g = [d]" "dodgerId g = Some (id_player d)"
     "\<forall>a\<in>set (artworks g). isDodger a \<longrightarrow> playerId a = id_player d"
     "length (filter isDodger (artworks g)) = (if promptSubmitted d then 1 else 0)"
    by (auto simp: dodger_ok_def)
  have "dodgers g' = [f d]"
    using d(1) assms(2,5) by (simp add: dodgers_def filter_single_map)
  then show ?thesis unfolding dodger_ok_def using d assms by auto
qed

lemma dodger_ok_players_same:
  assumes "dodger_ok g" and "players g' = players g" and "dodgerId g' = dodgerId g"
      and "artworks g' = artworks g"
  shows "dodger_ok g'"
  using assms by (simp add: dodger_ok_def dodgers_def)

lemma dodger_ok_addPlayer: "dodger_ok g \<Longrightarrow> dodger_ok (addPlayer c i n g)"
  by (simp add: addPlayer_def dodger_ok_def dodgers_def)

lemma dodger_ok_startGame:
  assumes "dodger_ok g" shows "dodger_ok (startGame g)"
proof (cases "state g = LOBBY")
  case True
  have "players (startGame g) = map (\<lambda>p. p\<lparr>score := 0\<rparr>) (players g)"
       "dodgerId (startGame g) = dodgerId g" "artworks (startGame g) = artworks g"
    using True by (simp_all add: startGame_def startNewRound_call_def)
  then show ?thesis
    using dodger_ok_players_map[OF assms, of "\<lambda>p. p\<lparr>score := 0\<rparr>" "startGame g"] by simp
next
  case False
  with assms show ?thesis by (simp add: startGame_def)
qed

lemma dodger_ok_resetGame:
  assumes "dodger_ok g" shows "dodger_ok (resetGame g)"
proof -
  have "players (resetGame g) = map (\<lambda>p. p\<lparr>score := 0\<rparr>) (players g)"
       "dodgerId (resetGame g) = dodgerId g" "artworks (resetGame g) = artworks g"
    by (simp_all add: resetGame_def)
  then show ?thesis
    using dodger_ok_players_map[OF assms, of "\<lambda>p. p\<lparr>score := 0\<rparr>" "resetGame g"] by simp
qed

lemma dodger_ok_handlePlayerReady:
  assumes "dodger_ok g" shows "dodger_ok (handlePlayerReady i g)"
proof -
  have "players (handlePlayerReady i g) = players g"
       "dodgerId (handlePlayerReady i g) = dodgerId g"
       "artworks (handlePlayerReady i g) = artworks g"
    by (simp_all add: handlePlayerReady_def Let_def)
  with assms show ?thesis by (rule dodger_ok_players_same)
qed

lemma dodger_ok_nextRound:
  assumes "dodger_ok g" shows "dodger_ok (nextRound c g)"
proof -
  have "players (nextRound c g) = players g" "dodgerId (nextRound c g) = dodgerId g"
       "artworks (nextRound c g) = artworks g"
    by (simp_all add: nextRound_def startNewRound_call_def)
  with assms show ?thesis by (rule dodger_ok_players_same)
qed

lemma dodger_ok_nextGalleryItem:
  assumes "dodger_ok g" and "nextGalleryItem c g = Inr g'"
  shows "dodger_ok g'"
proof -
  from assms(2) have "players g' = players g" "dodgerId g' = dodgerId g" "artworks g' = artworks g"
    by (auto simp: nextGalleryItem_def Let_def startGalleryTimer_def runArtEvaluation_call_def
             split: if_splits)
  with assms(1) show ?thesis by (rule dodger_ok_players_same)
qed

lemma dodger_ok_handleVote:
  assumes "dodger_ok g" and "handleVote c i yes g = Inr g'"
  shows "dodger_ok g'"
proof -
  let ?g1 = "g\<lparr>votes := votes g @ [\<lparr>voterId = i, artworkId = id_artwork (artworks g ! galleryIndex g), isYes = yes\<rparr>]\<rparr>"
  have ok1: "dodger_ok ?g1" using assms(1) by (rule dodger_ok_players_same) simp_all
  from assms(2) have "g' = g \<or> g' = ?g1 \<or> nextGalleryItem c ?g1 = Inr g'"
    by (auto simp: handleVote_def Let_def split: if_splits)
  then show ?thesis using assms(1) ok1 dodger_ok_nextGalleryItem by blast
qed

lemma dodger_ok_galleryTick:
  assumes "dodger_ok g" and "galleryTick c g = Inr g'"
  shows "dodger_ok g'"
proof -
  let ?g1 = "g\<lparr>galleryTime := galleryTime g - 1\<rparr>"
  have ok1: "dodger_ok ?g1" using assms(1) by (rule dodger_ok_players_same) simp_all
  from assms(2) have "g' = ?g1 \<or> nextGalleryItem c ?g1 = Inr g'"
    by (auto simp: galleryTick_def Let_def split: if_splits)
  then show ?thesis using ok1 dodger_ok_nextGalleryItem by blast
qed

lemma length_filter_mset:
  "mset xs = mset ys \<Longrightarrow> length (filter P xs) = length (filter P ys)"
proof -
  assume "mset xs = mset ys"
  then have "mset (filter P xs) = mset (filter P ys)" by (simp add: mset_filter)
  then show ?thesis by (metis size_mset)
qed

lemma length_filter_map_bool:
  "map P xs = map P ys \<Longrightarrow> length (filter P xs) = length (filter P ys)"
proof (induction xs arbitrary: ys)
  case Nil
  then show ?case by simp
next
  case (Cons x xs)
  then obtain y ys' where ys: "ys = y # ys'" "P x = P y" "map P xs = map P ys'"
    by (cases ys) auto
  with Cons.IH[of ys'] show ?case by simp
qed

lemma dodger_ok_artworks:
  assumes ok: "dodger_ok g" and p: "players g' = players g" and i: "dodgerId g' = dodgerId g"
      and n: "length (filter isDodger (artworks g')) = length (filter isDodger (artworks g))"
      and s: "\<forall>a'\<in>set (artworks g'). \<exists>a\<in>set (artworks g). isDodger a = isDodger a' \<and> playerId a = playerId a'"
  shows "dodger_ok g'"
proof -
  from ok obtain d where d: "dodgers g = [d]" "dodgerId g = Some (id_player d)"
     "\<forall>a\<in>set (artworks g). isDodger a \<longrightarrow> playerId a = id_player d"
     "length (filter isDodger (artworks g)) = (if promptSubmitted d then 1 else 0)"
    by (auto simp: dodger_ok_def)
  have "\<forall>a'\<in>set (artworks g'). isDodger a' \<longrightarrow> playerId a' = id_player d"
    using s d(3) by metis
  then show ?thesis unfolding dodger_ok_def using d p i n by (auto simp: dodgers_def)
qed

lemma dodger_ok_generateAllArtworks_resume:
  assumes ok: "dodger_ok g" and len: "length urls = length (artworks g)"
      and sh: "is_shuffle perm (length (artworks g))"
  shows "dodger_ok (generateAllArtworks_resume c urls perm g)"
proof -
  let ?arts = "map (\<lambda>(art, u). art\<lparr>imageUrl := u\<rparr>) (zip (artworks g) urls)"
  let ?new = "shuffleArray perm ?arts"
  let ?g' = "generateAllArtworks_resume c urls perm g"
  have a: "artworks ?g' = ?new" and p: "players ?g' = players g" and i: "dodgerId ?g' = dodgerId g"
    by (simp_all add: generateAllArtworks_resume_def startGalleryTimer_def)
  have l: "length ?arts = length (artworks g)" using len by simp
  have m: "mset ?new = mset ?arts" using sh l by (simp add: mset_shuffleArray)
  have f: "map isDodger ?arts = map isDodger (artworks g)"
    by (rule map_set_urls[OF len]) simp
  have h: "map (\<lambda>a. (isDodger a, playerId a)) ?arts = map (\<lambda>a. (isDodger a, playerId a)) (artworks g)"
    by (rule map_set_urls[OF len]) simp
  have n: "length (filter isDodger ?new) = length (filter isDodger (artworks g))"
    using length_filter_mset[OF m] length_filter_map_bool[OF f] by simp
  have s: "\<forall>a'\<in>set ?new. \<exists>a\<in>set (artworks g). isDodger a = isDodger a' \<and> playerId a = playerId a'"
  proof
    fix a' assume "a' \<in> set ?new"
    then have "a' \<in> set ?arts" using m by (metis mset_eq_setD)
    then have "(isDodger a', playerId a') \<in> set (map (\<lambda>a. (isDodger a, playerId a)) ?arts)"
      by (metis (mono_tags, lifting) image_eqI set_map)
    then have "(isDodger a', playerId a') \<in> set (map (\<lambda>a. (isDodger a, playerId a)) (artworks g))"
      unfolding h .
    then show "\<exists>a\<in>set (artworks g). isDodger a = isDodger a' \<and> playerId a = playerId a'"
      by auto
  qed
  have n': "length (filter isDodger (artworks ?g')) = length (filter isDodger (artworks g))"
    unfolding a by (rule n)
  have s': "\<forall>a'\<in>set (artworks ?g'). \<exists>a\<in>set (artworks g). isDodger a = isDodger a' \<and> playerId a = playerId a'"
    unfolding a by (rule s)
  show ?thesis by (rule dodger_ok_artworks[OF ok p i n' s'])
qed

lemma dodger_ok_calculateScores:
  assumes ok: "dodger_ok g" shows "dodger_ok (calculateScores r g)"
proof (cases "find isDodger (artworks g)")
  case None
  with ok show ?thesis by (simp add: calculateScores_def)
next
  case (Some dodgerArtwork)
  let ?f = "\<lambda>p. p\<lparr>score := score p + scoreToAdd g dodgerArtwork (dodgerPoints g)
                                        (buildScoreMap r (artworks g)) p\<rparr>"
  let ?h = "\<lambda>art. art\<lparr>qualityScore := Some (case buildScoreMap r (artworks g) (id_artwork art) of
                                     None \<Rightarrow> 0 | Some b \<Rightarrow> quality b),
                        originalityScore := Some (case buildScoreMap r (artworks g) (id_artwork art) of
                                     None \<Rightarrow> 0 | Some b \<Rightarrow> originality b)\<rparr>"
  let ?g1 = "g\<lparr>players := map ?f (players g)\<rparr>"
  have e: "calculateScores r g = ?g1\<lparr>artworks := map ?h (artworks g)\<rparr>"
    using Some by (simp add: calculateScores_def Let_def)
  have ok1: "dodger_ok ?g1"
    using dodger_ok_players_map[OF ok, of ?f ?g1] by simp
  have n: "length (filter isDodger (map ?h (artworks g))) = length (filter isDodger (artworks g))"
    by (rule length_filter_map_bool) simp
  show ?thesis unfolding e
  proof (rule dodger_ok_artworks[OF ok1])
    show "length (filter isDodger (artworks (?g1\<lparr>artworks := map ?h (artworks g)\<rparr>)))
            = length (filter isDodger (artworks ?g1))"
      using n by simp
    show "\<forall>a'\<in>set (artworks (?g1\<lparr>artworks := map ?h (artworks g)\<rparr>)).
            \<exists>a\<in>set (artworks ?g1). isDodger a = isDodger a' \<and> playerId a = playerId a'"
      by auto
  qed simp_all
qed

lemma dodger_ok_runArtEvaluation_resume:
  assumes "dodger_ok g" shows "dodger_ok (runArtEvaluation_resume r g)"
proof -
  let ?g0 = "g\<lparr>awaitingRankings := awaitingRankings g - 1\<rparr>"
  have "dodger_ok ?g0" using assms by (rule dodger_ok_players_same) simp_all
  then have "dodger_ok (calculateScores r ?g0)" by (rule dodger_ok_calculateScores)
  then show ?thesis
    unfolding runArtEvaluation_resume_def by (rule dodger_ok_players_same) simp_all
qed

lemma dodger_ok_startNewRound_resume:
  assumes "startNewRound_resume rd k g = Inr g'"
  shows "dodger_ok g'"
proof -
  let ?ps = "map (\<lambda>p. p\<lparr>role := Artist, promptSubmitted := False\<rparr>) (players g)"
  let ?d = "(?ps ! k)\<lparr>role := Dodger\<rparr>"
  from assms have k: "k < length ?ps"
    by (auto simp: startNewRound_resume_def Let_def split: if_splits)
  with assms have p: "players g' = ?ps[k := ?d]" and i: "dodgerId g' = Some (id_player (?ps ! k))"
    and a: "artworks g' = []"
    by (auto simp: startNewRound_resume_def Let_def split: if_splits)
  have "filter (\<lambda>p. role p = Dodger) (?ps[k := ?d]) = [?d]"
    by (rule filter_update_single[OF _ k]) auto
  then have d: "dodgers g' = [?d]" by (simp add: dodgers_def p)
  have "promptSubmitted ?d = False" using k by simp
  then show ?thesis unfolding dodger_ok_def using d i a by simp
qed

lemma dodger_ok_handlePromptSubmission:
  assumes ok: "dodger_ok g" shows "dodger_ok (handlePromptSubmission i pr g)"
proof (cases "find (\<lambda>p. id_player p = i) (players g)")
  case None
  with ok show ?thesis by (simp add: handlePromptSubmission_def)
next
  case (Some player)
  show ?thesis
  proof (cases "promptSubmitted player")
    case True
    with Some ok show ?thesis by (simp add: handlePromptSubmission_def)
  next
    case False
    from ok obtain d where d: "dodgers g = [d]" "dodgerId g = Some (id_player d)"
       "\<forall>a\<in>set (artworks g). isDodger a \<longrightarrow> playerId a = id_player d"
       "length (filter isDodger (artworks g)) = (if promptSubmitted d then 1 else 0)"
      by (auto simp: dodger_ok_def)
    let ?f = "\<lambda>p. p\<lparr>promptSubmitted := True\<rparr>"
    let ?ps = "update_first (\<lambda>p. id_player p = i) ?f (players g)"
    let ?a = "\<lparr>id_artwork = int (length (artworks g)) + 1, playerId = i, prompt = pr, imageUrl = None,
               isDodger = (role player = Dodger), qualityScore = None, originalityScore = None\<rparr>"
    let ?g' = "handlePromptSubmission i pr g"
    have p: "players ?g' = ?ps" and a: "artworks ?g' = artworks g @ [?a]"
      and di: "dodgerId ?g' = dodgerId g"
      using Some False
      by (simp_all add: handlePromptSubmission_def Let_def generateAllArtworks_call_def)
    have pm: "player \<in> set (players g)" "id_player player = i"
      using find_Some_mem[OF Some] by auto
    show ?thesis
    proof (cases "role player = Dodger")
      case True
      then have "player \<in> set (dodgers g)" using pm by (simp add: dodgers_def)
      then have pd: "player = d" using d(1) by simp
      have "filter (\<lambda>p. role p = Dodger) ?ps
              = update_first (\<lambda>p. id_player p = i) ?f (filter (\<lambda>p. role p = Dodger) (players g))"
        by (rule filter_update_first_same[OF Some]) (simp_all add: True)
      then have dg: "dodgers ?g' = [?f d]"
        using d(1) pd pm by (simp add: dodgers_def p)
      have none: "filter isDodger (artworks g) = []"
        using d(4) False pd by simp
      then have "\<forall>a\<in>set (artworks g). \<not> isDodger a" by (simp add: filter_empty_conv)
      then show ?thesis
        unfolding dodger_ok_def using dg d(2) di none True pd pm by (simp add: a)
    next
      case F: False
      have "filter (\<lambda>p. role p = Dodger) ?ps = filter (\<lambda>p. role p = Dodger) (players g)"
        by (rule filter_update_first_other[OF Some]) (simp_all add: F)
      then have dg: "dodgers ?g' = [d]" using d(1) by (simp add: dodgers_def p)
      show ?thesis
        unfolding dodger_ok_def using dg d di F by (simp add: a)
    qed
  qed
qed

lemma dodger_ok_removePlayer:
  assumes ok: "dodger_ok g" and n: "dodgerId g \<noteq> Some i"
  shows "dodger_ok (removePlayer i g)"
proof -
  from ok obtain d where d: "dodgers g = [d]" "dodgerId g = Some (id_player d)"
     "\<forall>a\<in>set (artworks g). isDodger a \<longrightarrow> playerId a = id_player d"
     "length (filter isDodger (artworks g)) = (if promptSubmitted d then 1 else 0)"
    by (auto simp: dodger_ok_def)
  have "filter (\<lambda>p. role p = Dodger) (filter (\<lambda>p. id_player p \<noteq> i) (players g))
          = filter (\<lambda>p. id_player p \<noteq> i) (filter (\<lambda>p. role p = Dodger) (players g))"
    by (simp add: conj_commute)
  also have "\<dots> = [d]" using d(1,2) n by (simp add: dodgers_def)
  finally have f: "filter (\<lambda>p. role p = Dodger) (filter (\<lambda>p. id_player p \<noteq> i) (players g)) = [d]" .
  have "players (removePlayer i g) = filter (\<lambda>p. id_player p \<noteq> i) (players g)"
    by (simp add: removePlayer_def Let_def)
  then have dg: "dodgers (removePlayer i g) = [d]"
    unfolding dodgers_def using f by simp
  have "dodgerId (removePlayer i g) = dodgerId g" "artworks (removePlayer i g) = artworks g"
    by (simp_all add: removePlayer_def Let_def)
  then show ?thesis unfolding dodger_ok_def using dg d by simp
qed

lemma dodger_ok_step:
  assumes "dodger_ok g" and "enabled e g" and "\<not> removes_dodger e g" and "step c e g = Inr g'"
  shows "dodger_ok g'"
proof (cases e)
  case (AddPlayer i n)
  with assms show ?thesis by (auto simp: dodger_ok_addPlayer)
next
  case (RemovePlayer i)
  with assms show ?thesis by (auto simp: dodger_ok_removePlayer)
next
  case StartGame
  with assms show ?thesis by (auto simp: dodger_ok_startGame)
next
  case ResetGame
  with assms show ?thesis by (auto simp: dodger_ok_resetGame)
next
  case (PlayerReady i)
  with assms show ?thesis by (auto simp: dodger_ok_handlePlayerReady)
next
  case (PromptSubmission i pr)
  with assms show ?thesis by (auto simp: dodger_ok_handlePromptSubmission)
next
  case (CastVote i yes)
  with assms show ?thesis by (auto intro: dodger_ok_handleVote)
next
  case NextRound
  with assms show ?thesis by (auto simp: dodger_ok_nextRound)
next
  case (RoundDataArrived rd k)
  with assms show ?thesis by (auto intro: dodger_ok_startNewRound_resume)
next
  case (ImagesArrived urls perm)
  with assms show ?thesis by (auto simp: dodger_ok_generateAllArtworks_resume)
next
  case TimerTick
  with assms show ?thesis by (auto intro: dodger_ok_galleryTick)
next
  case (RankingsArrived r)
  with assms show ?thesis by (auto simp: dodger_ok_runArtEvaluation_resume)
qed

lemma in_play_dodger_ok: "in_play c g \<Longrightarrow> dodger_ok g"
proof (induction rule: in_play.induct)
  case (in_play_setup g rd k g')
  then show ?case by (auto intro: dodger_ok_startNewRound_resume)
next
  case (in_play_step g e g')
  then show ?case by (auto intro: dodger_ok_step)
qed

lemma run_in_play:
  "in_play c g \<Longrightarrow> run_keeping_dodger c es g = Some g' \<Longrightarrow> in_play c g'"
proof (induction es arbitrary: g)
  case Nil
  then show ?case by simp
next
  case (Cons e es)
  from Cons.prems(2) obtain g1 where e: "enabled e g" and ne: "\<not> removes_dodger e g"
      and s: "step c e g = Inr g1" and r: "run_keeping_dodger c es g1 = Some g'"
    by (auto split: if_splits sum.splits)
  from Cons.prems(1) e ne s have "in_play c g1" by (rule in_play_step)
  then show ?case using r by (rule Cons.IH)
qed

text \<open>
  C4 as stated fails.  Ann is the deviator of the round and leaves during the briefing:
  \<open>removePlayer\<close> takes her off the roster and changes nothing else.  Play goes on with no
  current player in the role, and when Bob and Cy have both submitted no artwork is
  flagged, while \<open>dodgerId\<close> still names Ann.
\<close>

theorem one_dodger_counterexample:
  "run c2 dodger_leaves (newGame c2 ''ABCD'') = Some no_dodger_state
   \<and> state no_dodger_state = GENERATING
   \<and> map id_player (players no_dodger_state) = [''b'', ''c'']
   \<and> list_all promptSubmitted (players no_dodger_state)
   \<and> filter (\<lambda>p. role p = Dodger) (players no_dodger_state) = []
   \<and> filter isDodger (artworks no_dodger_state) = []
   \<and> dodgerId no_dodger_state = Some ''a''"
  unfolding no_dodger_state_def by (simp add: example_defs game_defs)

text \<open>
  C4, amended.  The completion of a round setup resets every player to \<open>Artist\<close> and gives
  the role \<open>Dodger\<close> to one current player.  From then on, as long as the deviator is not
  removed from the roster,
  exactly one entry of the roster has the role \<open>Dodger\<close> (every other one is an \<open>Artist\<close>)
  and \<open>dodgerId\<close> is that player's id; and whenever every player of the roster has
  submitted, exactly one artwork has the deviator flag and its \<open>playerId\<close> is the
  deviator's id.
\<close>

theorem one_dodger:
  assumes "in_play c g"
  shows "\<exists>d. filter (\<lambda>p. role p = Dodger) (players g) = [d]
             \<and> dodgerId g = Some (id_player d)
             \<and> (list_all promptSubmitted (players g) \<longrightarrow>
                  (\<exists>a. filter isDodger (artworks g) = [a] \<and> playerId a = id_player d))"
proof -
  from in_play_dodger_ok[OF assms] obtain d where d: "dodgers g = [d]" "dodgerId g = Some (id_player d)"
       "\<forall>a\<in>set (artworks g). isDodger a \<longrightarrow> playerId a = id_player d"
       "length (filter isDodger (artworks g)) = (if promptSubmitted d then 1 else 0)"
    by (auto simp: dodger_ok_def)
  have "\<exists>a. filter isDodger (artworks g) = [a] \<and> playerId a = id_player d"
    if all: "list_all promptSubmitted (players g)"
  proof -
    have "d \<in> set (dodgers g)" using d(1) by simp
    then have "d \<in> set (players g)" by (simp add: dodgers_def)
    with all have "promptSubmitted d" by (simp add: list_all_iff)
    with d(4) have "length (filter isDodger (artworks g)) = 1" by simp
    then obtain a where a: "filter isDodger (artworks g) = [a]"
      by (cases "filter isDodger (artworks g)") auto
    then have "a \<in> set (filter isDodger (artworks g))" by simp
    then have "a \<in> set (artworks g)" "isDodger a" by auto
    with d(3) a show ?thesis by auto
  qed
  with d(1,2) show ?thesis by (auto simp: dodgers_def)
qed

text \<open>
  Ann, Bob and Cy start a game and Ann becomes the deviator; Cy leaves during the briefing;
  Ann and Bob signal readiness and submit.  Ann is still the one deviator, and the one
  flagged artwork is hers.
\<close>

theorem one_dodger_witness:
  "in_play c2 all_submitted_state
   \<and> list_all promptSubmitted (players all_submitted_state)
   \<and> map id_player (players all_submitted_state) = [''a'', ''b'']
   \<and> map id_player (filter (\<lambda>p. role p = Dodger) (players all_submitted_state)) = [''a'']
   \<and> dodgerId all_submitted_state = Some ''a''
   \<and> map playerId (filter isDodger (artworks all_submitted_state)) = [''a'']"
proof -
  have r0: "run c2 [AddPlayer ''a'' ''Ann'', AddPlayer ''b'' ''Bob'', AddPlayer ''c'' ''Cy'', StartGame]
              (newGame c2 ''ABCD'') = Some started_state"
    unfolding started_state_def by (simp add: example_defs game_defs)
  have r: "reachable c2 started_state" using run_reachable[OF reachable_new r0] .
  have e: "enabled (RoundDataArrived rd0 0) started_state"
    and s: "step c2 (RoundDataArrived rd0 0) started_state = Inr briefing_start"
    unfolding started_state_def briefing_start_def by (simp_all add: example_defs game_defs)
  have p0: "in_play c2 briefing_start" using in_play_setup[OF r e s] .
  have r1: "run_keeping_dodger c2 bystander_leaves briefing_start = Some all_submitted_state"
    unfolding briefing_start_def all_submitted_state_def
    by (simp add: example_defs game_defs)
  have p: "in_play c2 all_submitted_state" using run_in_play[OF p0 r1] .
  have all: "list_all promptSubmitted (players all_submitted_state)"
    and ids: "map id_player (players all_submitted_state) = [''a'', ''b'']"
    and di: "dodgerId all_submitted_state = Some ''a''"
    unfolding all_submitted_state_def briefing_start_def by (simp_all add: example_defs game_defs)
  from one_dodger[OF p] all obtain d a where
    d: "filter (\<lambda>p. role p = Dodger) (players all_submitted_state) = [d]"
       "dodgerId all_submitted_state = Some (id_player d)"
       "filter isDodger (artworks all_submitted_state) = [a]" "playerId a = id_player d"
    by blast
  from di d have "id_player d = ''a''" by simp
  with p all ids di d show ?thesis by simp
qed

section \<open>C8: failures of the content-generation service\<close>

lemma try_catch_returns:
  "(\<And>error. \<exists>v. handler error = Inr v) \<Longrightarrow> \<exists>v. try_catch body handler = Inr v"
  by (cases body) (auto simp: try_catch_def)

text \<open>
  C8.  Whatever the service does at each attempt, \<open>generateImage\<close> returns (an image or the
  absent value) and never throws to its caller, and when the retried call fails the result
  is the absent value; \<open>generateRoundData\<close> returns as well, and when the retried fetch fails
  the result is the built-in triple: theme \<open>A Cyberpunk Megacity During a Rainstorm\<close>,
  motifs \<open>Dragon\<close> and \<open>Compass\<close>.
\<close>

theorem generation_never_throws:
  "(\<exists>handle. generateImage sdk = Inr handle)
   \<and> (\<forall>error. withRetry (imageCall sdk) = Inl error \<longrightarrow> generateImage sdk = Inr None)
   \<and> (\<exists>rd. generateRoundData sdk' parse = Inr rd)
   \<and> (\<forall>error. withRetry (roundDataCall sdk' parse) = Inl error \<longrightarrow>
         generateRoundData sdk' parse =
           Inr \<lparr>theme = ''A Cyberpunk Megacity During a Rainstorm'', motif1 = ''Dragon'',
                motif2 = ''Compass''\<rparr>)"
proof (intro conjI allI impI)
  show "\<exists>handle. generateImage sdk = Inr handle"
    unfolding generateImage_def by (rule try_catch_returns) simp
  show "\<exists>rd. generateRoundData sdk' parse = Inr rd"
    unfolding generateRoundData_def by (rule try_catch_returns) simp
  show "generateImage sdk = Inr None" if "withRetry (imageCall sdk) = Inl error" for error
    using that by (simp add: generateImage_def try_catch_def)
  show "generateRoundData sdk' parse =
           Inr \<lparr>theme = ''A Cyberpunk Megacity During a Rainstorm'', motif1 = ''Dragon'',
                motif2 = ''Compass''\<rparr>"
    if "withRetry (roundDataCall sdk' parse) = Inl error" for error
    using that by (simp add: generateRoundData_def try_catch_def fallbackRoundData_def)
qed

text \<open>Three rate-limit errors in a row: \<open>withRetry\<close> gives up, and the callers fall back.\<close>

lemma withRetry_rate_limited:
  "withRetry (imageCall rate_limited)
     = Inl \<lparr>message = Some ''429 Too Many Requests'', stringified = Some ''{}''\<rparr>"
  "withRetry (roundDataCall rate_limited parse)
     = Inl \<lparr>message = Some ''429 Too Many Requests'', stringified = Some ''{}''\<rparr>"
  by (simp_all add: withRetry_def imageCall_def roundDataCall_def rate_limited_def maxRetries_def
                    errorMessage_def toLowerCase_def Let_def)

theorem generation_never_throws_witness:
  "withRetry (imageCall rate_limited)
     = Inl \<lparr>message = Some ''429 Too Many Requests'', stringified = Some ''{}''\<rparr>
   \<and> generateImage rate_limited = Inr None
   \<and> withRetry (roundDataCall rate_limited (\<lambda>t. Inr rd0))
     = Inl \<lparr>message = Some ''429 Too Many Requests'', stringified = Some ''{}''\<rparr>
   \<and> generateRoundData rate_limited (\<lambda>t. Inr rd0) =
           Inr \<lparr>theme = ''A Cyberpunk Megacity During a Rainstorm'', motif1 = ''Dragon'',
                motif2 = ''Compass''\<rparr>"
  using withRetry_rate_limited(1) withRetry_rate_limited(2)[of "\<lambda>t. Inr rd0"]
        generation_never_throws[where sdk = rate_limited and sdk' = rate_limited
                                  and parse = "\<lambda>t. Inr rd0"]
  by simp

end
